theory Spec2Isabelle
  imports Complex_Main "HOL-Library.Word" "HOL-Library.Multiset"
begin

section \<open>IEEE 754 binary64 arithmetic, as Go's \<open>float64\<close> uses it\<close>

text \<open>
  A \<open>float64\<close> is a signed zero or finite value, an infinity or a NaN.  A finite value is
  kept as its sign bit (\<open>True\<close> is negative) and its exact magnitude, a rational number.
  Every operation computes the exact result and rounds it to the nearest representable
  magnitude, ties to the even significand, which is how IEEE 754 defines \<open>+\<close>, \<open>-\<close>,
  \<open>*\<close> and \<open>/\<close> in the default rounding mode, the only one Go has.
\<close>

datatype float64 = Finite bool rat | Infinity bool | NaN

text \<open>Powers of two with an integer exponent, by repeated squaring.\<close>

function pow2 :: "int \<Rightarrow> rat" where
  "pow2 e = (if e = 0 then 1
             else if e < 0 then 1 / pow2 (- e)
             else let h = pow2 (e div 2) in if even e then h * h else 2 * h * h)"
  by pat_completeness auto
termination
  by (relation "measure (\<lambda>e. if e < 0 then nat (2 - 2 * e) else nat (2 * e))") auto

declare pow2.simps [simp del]

text \<open>The number of binary digits of a positive integer.\<close>

function blen :: "int \<Rightarrow> int" where
  "blen x = (if 0 < x then blen (x div 2) + 1 else 0)"
  by pat_completeness auto
termination
  by (relation "measure nat") auto

declare blen.simps [simp del]

text \<open>The binary exponent of a positive rational: \<open>2 ^ ilog2 q \<le> q < 2 ^ (ilog2 q + 1)\<close>.\<close>

definition ilog2 :: "rat \<Rightarrow> int" where
  "ilog2 q = (let (a, b) = quotient_of q; d = blen a - blen b
              in if pow2 d \<le> q then d else d - 1)"

text \<open>Rounding a rational to the nearest integer, a tie to the even one.\<close>

definition rhe :: "rat \<Rightarrow> int" where
  "rhe q = (let f = \<lfloor>q\<rfloor>; d = q - of_int f
            in if d < 1 / 2 then f else if 1 / 2 < d then f + 1
               else if even f then f else f + 1)"

text \<open>
  Rounding a magnitude to 53 significant bits; below \<open>2 ^ - 1022\<close> the spacing stays
  \<open>2 ^ - 1074\<close> (subnormal numbers).
\<close>

definition rnd :: "rat \<Rightarrow> rat" where
  "rnd m = (if m = 0 then 0
            else let e = max (ilog2 m) (- 1022); u = pow2 (e - 52)
                 in of_int (rhe (m / u)) * u)"

text \<open>A rounded magnitude of \<open>2 ^ 1024\<close> or more overflows to an infinity.\<close>

definition round_to :: "bool \<Rightarrow> rat \<Rightarrow> float64" where
  "round_to s m = (let r = rnd m in if pow2 1024 \<le> r then Infinity s else Finite s r)"

definition sval :: "bool \<Rightarrow> rat \<Rightarrow> rat" where
  "sval s m = (if s then - m else m)"

fun fneg :: "float64 \<Rightarrow> float64" where
  "fneg (Finite s m) = Finite (\<not> s) m"
| "fneg (Infinity s) = Infinity (\<not> s)"
| "fneg NaN = NaN"

fun fadd :: "float64 \<Rightarrow> float64 \<Rightarrow> float64" where
  "fadd NaN y = NaN"
| "fadd x NaN = NaN"
| "fadd (Infinity s) (Infinity t) = (if s = t then Infinity s else NaN)"
| "fadd (Infinity s) (Finite t b) = Infinity s"
| "fadd (Finite s a) (Infinity t) = Infinity t"
| "fadd (Finite s a) (Finite t b) =
     (let v = sval s a + sval t b
      in if v = 0 then Finite (s \<and> t) 0 else round_to (v < 0) \<bar>v\<bar>)"

definition fsub :: "float64 \<Rightarrow> float64 \<Rightarrow> float64" where
  "fsub x y = fadd x (fneg y)"

fun fmul :: "float64 \<Rightarrow> float64 \<Rightarrow> float64" where
  "fmul NaN y = NaN"
| "fmul x NaN = NaN"
| "fmul (Infinity s) (Infinity t) = Infinity (s \<noteq> t)"
| "fmul (Infinity s) (Finite t b) = (if b = 0 then NaN else Infinity (s \<noteq> t))"
| "fmul (Finite s a) (Infinity t) = (if a = 0 then NaN else Infinity (s \<noteq> t))"
| "fmul (Finite s a) (Finite t b) = round_to (s \<noteq> t) (a * b)"

fun fdiv :: "float64 \<Rightarrow> float64 \<Rightarrow> float64" where
  "fdiv NaN y = NaN"
| "fdiv x NaN = NaN"
| "fdiv (Infinity s) (Infinity t) = NaN"
| "fdiv (Infinity s) (Finite t b) = Infinity (s \<noteq> t)"
| "fdiv (Finite s a) (Infinity t) = Finite (s \<noteq> t) 0"
| "fdiv (Finite s a) (Finite t b) =
     (if b = 0 then (if a = 0 then NaN else Infinity (s \<noteq> t))
      else round_to (s \<noteq> t) (a / b))"

text \<open>Comparisons: a NaN compares false with everything, the two zeros are equal.\<close>

fun fge :: "float64 \<Rightarrow> float64 \<Rightarrow> bool" where
  "fge NaN y = False"
| "fge x NaN = False"
| "fge (Infinity s) (Infinity t) = (\<not> s \<or> t)"
| "fge (Infinity s) (Finite t b) = (\<not> s)"
| "fge (Finite s a) (Infinity t) = t"
| "fge (Finite s a) (Finite t b) = (sval t b \<le> sval s a)"

fun feq :: "float64 \<Rightarrow> float64 \<Rightarrow> bool" where
  "feq (Finite s a) (Finite t b) = (sval s a = sval t b)"
| "feq (Infinity s) (Infinity t) = (s = t)"
| "feq x y = False"

text \<open>\<open>float64(k)\<close> of an integer \<open>k\<close>: the nearest \<open>float64\<close>.\<close>

definition float64_of_int :: "int \<Rightarrow> float64" where
  "float64_of_int k = round_to (k < 0) \<bar>of_int k\<bar>"

text \<open>\<open>math.Floor\<close>: the zeros, the infinities and NaN are returned as they are.\<close>

fun Floor :: "float64 \<Rightarrow> float64" where
  "Floor (Finite s m) = Finite s (if s then of_int \<lceil>m\<rceil> else of_int \<lfloor>m\<rfloor>)"
| "Floor x = x"

text \<open>
  The values a \<open>float64\<close> variable can hold: the magnitude of a finite one is not negative,
  is rounded already and lies below \<open>2 ^ 1024\<close>.
\<close>

fun is_float64 :: "float64 \<Rightarrow> bool" where
  "is_float64 (Finite s m) = (0 \<le> m \<and> rnd m = m \<and> m < pow2 1024)"
| "is_float64 x = True"

fun is_finite :: "float64 \<Rightarrow> bool" where
  "is_finite (Finite s m) = True"
| "is_finite x = False"

text \<open>The value of a finite \<open>float64\<close> as a rational number.\<close>

fun fval :: "float64 \<Rightarrow> rat" where
  "fval (Finite s m) = sval s m"
| "fval x = 0"

text \<open>The constants of the program.\<close>

definition fzero :: float64 where "fzero = Finite False 0"
definition fone :: float64 where "fone = Finite False 1"
definition fhalf :: float64 where "fhalf = Finite False (1 / 2)"
definition ffour :: float64 where "ffour = Finite False 4"

section \<open>What the platform decides\<close>

text \<open>
  Four things are not fixed by the program and arithmetic alone.  \<open>math.Log2\<close> is a library
  approximation of a transcendental function; Go leaves the result of converting a
  \<open>float64\<close> to \<open>int\<close> to the implementation when the value is a NaN, an infinity or out of
  the range of \<open>int\<close>; whether the machine has the memory for an allocation of so many
  bytes depends on the machine; and the size of the header of a channel, \<open>hchanSize\<close>,
  depends on the version of the runtime (96 bytes, 104 since Go 1.23).  The four are
  parameters of the model; every theorem holds for all of them.
\<close>

record platform =
  math_Log2 :: "float64 \<Rightarrow> float64"
  int_of_unrepresentable :: "float64 \<Rightarrow> int"
  out_of_memory :: "int \<Rightarrow> bool"
  hchanSize :: int

text \<open>\<open>int(f)\<close>: the fraction is discarded (truncation towards zero).\<close>

fun int_of_float64 :: "platform \<Rightarrow> float64 \<Rightarrow> int" where
  "int_of_float64 pf (Finite s m) =
     (let v = (if s then - \<lfloor>m\<rfloor> else \<lfloor>m\<rfloor>)
      in if - (2 ^ 63) \<le> v \<and> v < 2 ^ 63 then v
         else int_of_unrepresentable pf (Finite s m))"
| "int_of_float64 pf x = int_of_unrepresentable pf x"

section \<open>Integers\<close>

text \<open>
  Go's \<open>int\<close> has 64 bits, and the values of type \<open>int\<close> are integers from \<open>- 2 ^ 63\<close> to
  \<open>2 ^ 63 - 1\<close>.  A loop counter that runs from 1 to \<open>maxIters\<close> or from 0 to \<open>AntiAlias\<close>
  reaches no value beyond the bound it is compared with and is an integer of the model
  as it is.  The differences \<open>col - p.SizeX/2\<close>, \<open>row - p.SizeY/2\<close> and \<open>minsize - 1\<close> of
  the pixel sampler and its channel sums can leave the range; their wrap-around is
  written out.  \<open>/\<close> and \<open>%\<close> truncate towards zero and panic on a zero divisor.
\<close>

definition wrap64 :: "int \<Rightarrow> int" where
  "wrap64 v = (v + 2 ^ 63) mod 2 ^ 64 - 2 ^ 63"

definition go_quot :: "int \<Rightarrow> int \<Rightarrow> int" where
  "go_quot a b = sgn a * sgn b * (\<bar>a\<bar> div \<bar>b\<bar>)"

definition go_rem :: "int \<Rightarrow> int \<Rightarrow> int" where
  "go_rem a b = a - b * go_quot a b"

text \<open>
  What ends a run: a panic with a message, the two run-time panics of indexing and of
  division, and the fatal error of the runtime when the machine has no memory left.
\<close>

datatype panic = Panic string | IndexOutOfRange | DivideByZero | OutOfMemory

section \<open>Allocation\<close>

text \<open>
  \<open>make\<close> of a slice of \<open>n\<close> elements of \<open>elemsize\<close> bytes, as the runtime's \<open>makeslice\<close>
  decides it: a length that is negative, or a size above \<open>maxAlloc\<close>, the largest block
  of the 64-bit runtime (\<open>2 ^ 48\<close> bytes), is a panic; any other size is asked of the
  machine.  \<open>None\<close> is the slice.
\<close>

definition maxAlloc :: int where
  "maxAlloc = 2 ^ 48"

definition makeslice :: "platform \<Rightarrow> int \<Rightarrow> int \<Rightarrow> panic option" where
  "makeslice pf elemsize n =
     (if n < 0 \<or> maxAlloc < elemsize * n then Some (Panic ''makeslice: len out of range'')
      else if out_of_memory pf (elemsize * n) then Some OutOfMemory
      else None)"

text \<open>
  \<open>make\<close> of a channel with a buffer of \<open>n\<close> elements, as the runtime's \<open>makechan\<close> decides
  it: the header of the channel and the buffer are one block.
\<close>

definition makechan :: "platform \<Rightarrow> int \<Rightarrow> int \<Rightarrow> panic option" where
  "makechan pf elemsize n =
     (if n < 0 \<or> maxAlloc - hchanSize pf < elemsize * n then
        Some (Panic ''makechan: size out of range'')
      else if out_of_memory pf (hchanSize pf + elemsize * n) then Some OutOfMemory
      else None)"

section \<open>The render engine\<close>

text \<open>\<open>color.NRGBA\<close>: four \<open>uint8\<close> channels.\<close>

record NRGBA =
  cR :: "8 word"
  cG :: "8 word"
  cB :: "8 word"
  cA :: "8 word"

record Parameters =
  CenterX :: float64
  CenterY :: float64
  Magnification :: float64
  MaxIterations :: int
  SizeX :: int
  SizeY :: int
  AntiAlias :: int
  Continuous :: bool
  Palette :: "NRGBA list"
  InsideColor :: NRGBA
  subpixOffsets :: "float64 list"

subsection \<open>\<open>mandel\<close>: the escape-time evaluator\<close>

text \<open>\<open>bailout := float64(4.0); if continuous { bailout = 2 << 16 }\<close>; the flag is \<open>cont\<close> here.\<close>

definition bailout :: "bool \<Rightarrow> float64" where
  "bailout cont = (if cont then float64_of_int (2 * 2 ^ 16) else ffour)"

function mandel_loop ::
  "platform \<Rightarrow> int \<Rightarrow> float64 \<Rightarrow> float64 \<Rightarrow> bool \<Rightarrow> float64 \<Rightarrow> float64 \<Rightarrow> int \<Rightarrow> float64"
where
  "mandel_loop pf maxIters x y cont a b iters =
     (if iters \<le> maxIters then
        let a2 = fmul a a; b2 = fmul b b in
        if fge (fadd a2 b2) (bailout cont) then
          (if cont then
             let nu = math_Log2 pf (fmul (math_Log2 pf (fadd a2 b2)) fhalf)
             in fsub (float64_of_int (iters + 1)) nu
           else float64_of_int iters)
        else
          let ab = fmul a b
          in mandel_loop pf maxIters x y cont
               (fadd (fsub a2 b2) x) (fadd (fadd ab ab) y) (iters + 1)
      else fzero)"
  by pat_completeness auto
termination
  by (relation "measure (\<lambda>(pf, maxIters, x, y, cont, a, b, iters). nat (maxIters + 1 - iters))")
     auto

declare mandel_loop.simps [simp del]

definition mandel :: "platform \<Rightarrow> int \<Rightarrow> float64 \<Rightarrow> float64 \<Rightarrow> bool \<Rightarrow> float64" where
  "mandel pf maxIters x y cont = mandel_loop pf maxIters x y cont x y 1"

text \<open>
  The recurrence in the words of the specification: \<open>a' = a\<^sup>2 - b\<^sup>2 + x\<close>,
  \<open>b' = 2ab + y\<close>, started at \<open>a = x\<close>, \<open>b = y\<close>.  \<open>orbit x y k\<close> is the point after
  \<open>k\<close> steps, \<open>norm2\<close> the squared modulus that is compared with the bailout, and
  iteration \<open>n\<close> (counted from 1) tests the point after \<open>n - 1\<close> steps.
\<close>

definition ftwo :: float64 where "ftwo = Finite False 2"

definition recurrence :: "float64 \<Rightarrow> float64 \<Rightarrow> float64 \<times> float64 \<Rightarrow> float64 \<times> float64" where
  "recurrence x y z =
     (case z of (a, b) \<Rightarrow>
        (fadd (fsub (fmul a a) (fmul b b)) x, fadd (fmul ftwo (fmul a b)) y))"

definition orbit :: "float64 \<Rightarrow> float64 \<Rightarrow> nat \<Rightarrow> float64 \<times> float64" where
  "orbit x y k = (recurrence x y ^^ k) (x, y)"

definition norm2 :: "float64 \<times> float64 \<Rightarrow> float64" where
  "norm2 z = (case z of (a, b) \<Rightarrow> fadd (fmul a a) (fmul b b))"

definition escapes_at :: "bool \<Rightarrow> float64 \<Rightarrow> float64 \<Rightarrow> nat \<Rightarrow> bool" where
  "escapes_at cont x y n = fge (norm2 (orbit x y (n - 1))) (bailout cont)"

subsection \<open>\<open>getColor\<close>: the color mapper\<close>

text \<open>\<open>p.Palette[k % len(p.Palette)]\<close>, with the two run-time panics of the expression.\<close>

definition palette_at :: "Parameters \<Rightarrow> int \<Rightarrow> panic + NRGBA" where
  "palette_at p k =
     (let n = int (length (Palette p)) in
      if n = 0 then Inl DivideByZero
      else let i = go_rem k n in
        if 0 \<le> i \<and> i < n then Inr (Palette p ! nat i) else Inl IndexOutOfRange)"

definition uint8_to_float64 :: "8 word \<Rightarrow> float64" where
  "uint8_to_float64 c = float64_of_int (uint c)"

definition blend :: "platform \<Rightarrow> 8 word \<Rightarrow> 8 word \<Rightarrow> float64 \<Rightarrow> int" where
  "blend pf c1 c2 weight =
     int_of_float64 pf
       (fadd (fmul (uint8_to_float64 c1) (fsub fone weight)) (fmul (uint8_to_float64 c2) weight))"

text \<open>\<open>int(c.R), int(c.G), int(c.B)\<close>\<close>

definition rgb_of :: "NRGBA \<Rightarrow> int \<times> int \<times> int" where
  "rgb_of c = (uint (cR c), uint (cG c), uint (cB c))"

definition getColor :: "platform \<Rightarrow> Parameters \<Rightarrow> float64 \<Rightarrow> panic + (int \<times> int \<times> int)" where
  "getColor pf p iters =
     (if feq iters fzero then
        let c = InsideColor p in Inr (rgb_of c)
      else if \<not> Continuous p then
        (case palette_at p (int_of_float64 pf iters) of
           Inl e \<Rightarrow> Inl e
         | Inr c \<Rightarrow> Inr (rgb_of c))
      else
        let aa = int_of_float64 pf (Floor iters);
            bb = int_of_float64 pf (Floor iters) + 1;
            (aa, bb) = (if aa < 1 then (1, 2) else (aa, bb));
            weight = fsub iters (Floor iters)
        in case palette_at p (aa - 1) of
             Inl e \<Rightarrow> Inl e
           | Inr c1 \<Rightarrow>
               (case palette_at p (bb - 1) of
                  Inl e \<Rightarrow> Inl e
                | Inr c2 \<Rightarrow>
                    Inr (blend pf (cR c1) (cR c2) weight,
                         blend pf (cG c1) (cG c2) weight,
                         blend pf (cB c1) (cB c2) weight)))"

subsection \<open>\<open>Init\<close>: the subpixel offsets\<close>

datatype init_error = AntiAliasTooLow | EmptyPalette

text \<open>\<open>(0.5+float64(i))/float64(p.AntiAlias) - 0.5\<close>\<close>

definition offset :: "int \<Rightarrow> int \<Rightarrow> float64" where
  "offset n i = fsub (fdiv (fadd fhalf (float64_of_int i)) (float64_of_int n)) fhalf"

function Init_loop :: "int \<Rightarrow> int \<Rightarrow> float64 list \<Rightarrow> float64 list" where
  "Init_loop n i xs = (if i < n then Init_loop n (i + 1) (xs[nat i := offset n i]) else xs)"
  by pat_completeness auto
termination
  by (relation "measure (\<lambda>(n, i, xs). nat (n - i))") auto

declare Init_loop.simps [simp del]

text \<open>
  \<open>Init\<close> writes the offsets into the receiver before it looks at the palette, so the
  parameters are returned in both cases, with the error if there is one.  When
  \<open>make([]float64, p.AntiAlias)\<close> fails, \<open>Init\<close> does not return.
\<close>

definition Init :: "platform \<Rightarrow> Parameters \<Rightarrow> panic + Parameters \<times> init_error option" where
  "Init pf p =
     (if AntiAlias p < 1 then Inr (p, Some AntiAliasTooLow)
      else
        case makeslice pf 8 (AntiAlias p) of
          Some e \<Rightarrow> Inl e
        | None \<Rightarrow>
            let p' = p\<lparr>subpixOffsets :=
                         Init_loop (AntiAlias p) 0 (replicate (nat (AntiAlias p)) fzero)\<rparr>
            in if length (Palette p') < 1 then Inr (p', Some EmptyPalette) else Inr (p', None))"

subsection \<open>\<open>CalcPixel\<close>: the pixel sampler\<close>

text \<open>
  The coordinates of a sample.  \<open>col - p.SizeX/2\<close>, \<open>row - p.SizeY/2\<close> and \<open>minsize - 1\<close> are
  computed in \<open>int\<close> before they are converted.
\<close>

definition plane_x :: "Parameters \<Rightarrow> int \<Rightarrow> int \<Rightarrow> float64 \<Rightarrow> float64" where
  "plane_x p minsize col xoffset =
     fadd (CenterX p)
       (fdiv (fadd (float64_of_int (wrap64 (col - go_quot (SizeX p) 2))) xoffset)
             (fmul (Magnification p) (float64_of_int (wrap64 (minsize - 1)))))"

definition plane_y :: "Parameters \<Rightarrow> int \<Rightarrow> int \<Rightarrow> float64 \<Rightarrow> float64" where
  "plane_y p minsize row yoffset =
     fsub (CenterY p)
       (fdiv (fsub (float64_of_int (wrap64 (row - go_quot (SizeY p) 2))) yoffset)
             (fmul (Magnification p) (float64_of_int (wrap64 (minsize - 1)))))"

definition sample ::
  "platform \<Rightarrow> Parameters \<Rightarrow> int \<Rightarrow> int \<Rightarrow> int \<Rightarrow> float64 \<Rightarrow> float64 \<Rightarrow> panic + (int \<times> int \<times> int)"
where
  "sample pf p minsize col row yoffset xoffset =
     (let x = plane_x p minsize col xoffset;
          y = plane_y p minsize row yoffset
      in getColor pf p (mandel pf (MaxIterations p) x y (Continuous p)))"

text \<open>\<open>r, g, b = r+rs, g+gs, b+bs\<close>, in 64-bit arithmetic.\<close>

definition accumulate :: "int \<times> int \<times> int \<Rightarrow> int \<times> int \<times> int \<Rightarrow> int \<times> int \<times> int" where
  "accumulate acc c =
     (case acc of (r, g, b) \<Rightarrow> case c of (rs, gs, bs) \<Rightarrow>
        (wrap64 (r + rs), wrap64 (g + gs), wrap64 (b + bs)))"

fun inner_loop ::
  "platform \<Rightarrow> Parameters \<Rightarrow> int \<Rightarrow> int \<Rightarrow> int \<Rightarrow> float64 \<Rightarrow> float64 list \<Rightarrow>
   int \<times> int \<times> int \<Rightarrow> panic + (int \<times> int \<times> int)"
where
  "inner_loop pf p minsize col row yoffset [] acc = Inr acc"
| "inner_loop pf p minsize col row yoffset (xoffset # xs) acc =
     (case sample pf p minsize col row yoffset xoffset of
        Inl e \<Rightarrow> Inl e
      | Inr c \<Rightarrow> inner_loop pf p minsize col row yoffset xs (accumulate acc c))"

fun outer_loop ::
  "platform \<Rightarrow> Parameters \<Rightarrow> int \<Rightarrow> int \<Rightarrow> int \<Rightarrow> float64 list \<Rightarrow>
   int \<times> int \<times> int \<Rightarrow> panic + (int \<times> int \<times> int)"
where
  "outer_loop pf p minsize col row [] acc = Inr acc"
| "outer_loop pf p minsize col row (yoffset # ys) acc =
     (case inner_loop pf p minsize col row yoffset (subpixOffsets p) acc of
        Inl e \<Rightarrow> Inl e
      | Inr acc' \<Rightarrow> outer_loop pf p minsize col row ys acc')"

text \<open>
  \<open>aa := p.AntiAlias * p.AntiAlias\<close> is the exact product for a level below \<open>2 ^ 31\<close>; a
  greater one asks for more than \<open>2 ^ 62\<close> samples per pixel.  The quotients are converted
  to \<open>uint8\<close>, which keeps their low 8 bits.
\<close>

definition CalcPixel :: "platform \<Rightarrow> Parameters \<Rightarrow> int \<Rightarrow> int \<Rightarrow> panic + NRGBA" where
  "CalcPixel pf p col row =
     (if int (length (subpixOffsets p)) \<noteq> AntiAlias p then
        Inl (Panic ''CalcPixel cannot be called before Init'')
      else
        let minsize = (if SizeY p < SizeX p then SizeY p else SizeX p) in
        case outer_loop pf p minsize col row (subpixOffsets p) (0, 0, 0) of
          Inl e \<Rightarrow> Inl e
        | Inr (r, g, b) \<Rightarrow>
            let aa = AntiAlias p * AntiAlias p in
            if aa = 0 then Inl DivideByZero
            else Inr \<lparr>cR = word_of_int (go_quot r aa), cG = word_of_int (go_quot g aa),
                       cB = word_of_int (go_quot b aa), cA = 255\<rparr>)"

subsection \<open>\<open>Generate\<close>: the work scheduler\<close>

text \<open>
  \<open>Generate\<close> runs the main goroutine, \<open>fanout\<close> row workers and one aggregator, which
  meet on three channels.  The model is a transition system over the states of these
  goroutines; a step is one action of one goroutine, or the meeting of a sender and a
  receiver on an unbuffered channel, and the scheduler may take any enabled step.

  The main goroutine is at \<open>rows <- row\<close> with its loop variable (\<open>Feeding row\<close>), at the
  \<open>k\<close>-th \<open><-done\<close> of its wait loop (\<open>Waiting k\<close>), at the last \<open><-done\<close> (\<open>Final\<close>), or it
  has returned the canvas.  \<open>rows\<close> is closed once the main goroutine has left \<open>Feeding\<close>,
  \<open>pixelch\<close> once it has reached \<open>Final\<close>.
\<close>

datatype main_state = Feeding int | Waiting nat | Final | Returned

text \<open>
  A worker waits for a row (\<open>Idle\<close>), is at the head of its column loop (\<open>Busy row col\<close>),
  holds a computed color that it sends to \<open>pixelch\<close> (\<open>Sending row col color\<close>), sends on
  \<open>done\<close> (\<open>Finished\<close>) or has ended (\<open>Gone\<close>).  The workers run the same code and are kept
  as a multiset.
\<close>

datatype worker = Idle | Busy int int | Sending int int NRGBA | Finished | Gone

datatype aggregator = Receiving | Signalling | Ended

record scheduler =
  main_at :: main_state
  workers :: "worker multiset"
  pixelch :: "(int \<times> int \<times> NRGBA) list"
  aggregator_at :: aggregator
  canvas :: "int \<times> int \<Rightarrow> NRGBA"

datatype outcome = Running scheduler | Crashed panic

text \<open>
  The canvas of \<open>image.NewNRGBA(image.Rect(0, 0, p.SizeX, p.SizeY))\<close> is a grid of zero
  pixels; \<open>image.Rect\<close> swaps the corners when a size is negative, and \<open>Set\<close> writes a
  pixel inside the rectangle and ignores any other.
\<close>

definition zero_pixel :: NRGBA where
  "zero_pixel = \<lparr>cR = 0, cG = 0, cB = 0, cA = 0\<rparr>"

definition in_canvas :: "Parameters \<Rightarrow> int \<times> int \<Rightarrow> bool" where
  "in_canvas p pt =
     (case pt of (x, y) \<Rightarrow>
        min 0 (SizeX p) \<le> x \<and> x < max 0 (SizeX p) \<and>
        min 0 (SizeY p) \<le> y \<and> y < max 0 (SizeY p))"

definition canvas_Set ::
  "Parameters \<Rightarrow> (int \<times> int \<Rightarrow> NRGBA) \<Rightarrow> int \<Rightarrow> int \<Rightarrow> NRGBA \<Rightarrow> (int \<times> int \<Rightarrow> NRGBA)"
where
  "canvas_Set p cv x y c = (if in_canvas p (x, y) then cv((x, y) := c) else cv)"

definition rows_closed :: "scheduler \<Rightarrow> bool" where
  "rows_closed s = (case main_at s of Feeding r \<Rightarrow> False | _ \<Rightarrow> True)"

definition pixelch_closed :: "scheduler \<Rightarrow> bool" where
  "pixelch_closed s = (main_at s = Final \<or> main_at s = Returned)"

text \<open>
  \<open>image.NewNRGBA(image.Rect(0, 0, w, h))\<close>: the rectangle has the width \<open>|w|\<close> and the height
  \<open>|h|\<close>, computed in \<open>int\<close>, and four bytes per pixel.  \<open>NewNRGBA\<close> panics when a side is
  negative or when the number of bytes leaves the range of \<open>int\<close> (\<open>mul3NonNeg\<close> multiplies
  4 by the width first, in 64 bits without a sign, and the product by the height), and
  it makes a slice of that many bytes.  \<open>None\<close> is the canvas.
\<close>

definition NewNRGBA :: "platform \<Rightarrow> int \<Rightarrow> int \<Rightarrow> panic option" where
  "NewNRGBA pf w h =
     (let dx = wrap64 \<bar>w\<bar>; dy = wrap64 \<bar>h\<bar> in
      if dx < 0 \<or> dy < 0 \<or> 2 ^ 64 \<le> 4 * dx \<or> 2 ^ 63 \<le> 4 * dx * dy then
        Some (Panic ''image: NewNRGBA Rectangle has huge or negative dimensions'')
      else makeslice pf 1 (4 * dx * dy))"

text \<open>
  The start of \<open>Generate\<close>: the guard, then \<open>make(chan pixel, p.SizeX)\<close>, where a \<open>pixel\<close> has
  32 bytes (two \<open>int\<close> and an interface value), then the goroutines of the workers, which
  wait for a row, then the canvas.  When the channel or the canvas cannot be made the run
  ends before a pixel is computed.
\<close>

definition Generate_start :: "platform \<Rightarrow> Parameters \<Rightarrow> nat \<Rightarrow> outcome" where
  "Generate_start pf p fanout =
     (if int (length (subpixOffsets p)) \<noteq> AntiAlias p then
        Crashed (Panic ''Generate cannot be called before Init'')
      else
        case makechan pf 32 (SizeX p) of
          Some e \<Rightarrow> Crashed e
        | None \<Rightarrow>
            (case NewNRGBA pf (SizeX p) (SizeY p) of
               Some e \<Rightarrow> Crashed e
             | None \<Rightarrow>
                 Running \<lparr>main_at = Feeding 0, workers = replicate_mset fanout Idle,
                          pixelch = [], aggregator_at = Receiving,
                          canvas = (\<lambda>pt. zero_pixel)\<rparr>))"

inductive step :: "platform \<Rightarrow> Parameters \<Rightarrow> nat \<Rightarrow> scheduler \<Rightarrow> outcome \<Rightarrow> bool"
  for pf :: platform and p :: Parameters and fanout :: nat
where
  feed: "main_at s = Feeding r \<Longrightarrow> r < SizeY p \<Longrightarrow> workers s = add_mset Idle ws \<Longrightarrow>
     step pf p fanout s
       (Running (s\<lparr>main_at := Feeding (r + 1), workers := add_mset (Busy r 0) ws\<rparr>))"
| close_rows: "main_at s = Feeding r \<Longrightarrow> \<not> r < SizeY p \<Longrightarrow>
     step pf p fanout s (Running (s\<lparr>main_at := Waiting 0\<rparr>))"
| no_more_rows: "rows_closed s \<Longrightarrow> workers s = add_mset Idle ws \<Longrightarrow>
     step pf p fanout s (Running (s\<lparr>workers := add_mset Finished ws\<rparr>))"
| compute: "workers s = add_mset (Busy r c) ws \<Longrightarrow> c < SizeX p \<Longrightarrow>
     CalcPixel pf p c r = Inr color \<Longrightarrow>
     step pf p fanout s (Running (s\<lparr>workers := add_mset (Sending r c color) ws\<rparr>))"
| compute_panic: "workers s = add_mset (Busy r c) ws \<Longrightarrow> c < SizeX p \<Longrightarrow>
     CalcPixel pf p c r = Inl e \<Longrightarrow>
     step pf p fanout s (Crashed e)"
| row_done: "workers s = add_mset (Busy r c) ws \<Longrightarrow> \<not> c < SizeX p \<Longrightarrow>
     step pf p fanout s (Running (s\<lparr>workers := add_mset Idle ws\<rparr>))"
| send: "workers s = add_mset (Sending r c color) ws \<Longrightarrow> \<not> pixelch_closed s \<Longrightarrow>
     int (length (pixelch s)) < SizeX p \<Longrightarrow>
     step pf p fanout s
       (Running (s\<lparr>workers := add_mset (Busy r (c + 1)) ws,
                     pixelch := pixelch s @ [(c, r, color)]\<rparr>))"
| send_closed: "workers s = add_mset (Sending r c color) ws \<Longrightarrow> pixelch_closed s \<Longrightarrow>
     step pf p fanout s (Crashed (Panic ''send on closed channel''))"
| receive: "aggregator_at s = Receiving \<Longrightarrow> pixelch s = (x, y, color) # rest \<Longrightarrow>
     step pf p fanout s
       (Running (s\<lparr>pixelch := rest, canvas := canvas_Set p (canvas s) x y color\<rparr>))"
| drained: "aggregator_at s = Receiving \<Longrightarrow> pixelch s = [] \<Longrightarrow> pixelch_closed s \<Longrightarrow>
     step pf p fanout s (Running (s\<lparr>aggregator_at := Signalling\<rparr>))"
| worker_done: "main_at s = Waiting k \<Longrightarrow> k < fanout \<Longrightarrow> workers s = add_mset Finished ws \<Longrightarrow>
     step pf p fanout s
       (Running (s\<lparr>main_at := Waiting (k + 1), workers := add_mset Gone ws\<rparr>))"
| aggregator_done: "main_at s = Waiting k \<Longrightarrow> k < fanout \<Longrightarrow> aggregator_at s = Signalling \<Longrightarrow>
     step pf p fanout s
       (Running (s\<lparr>main_at := Waiting (k + 1), aggregator_at := Ended\<rparr>))"
| close_pixelch: "main_at s = Waiting k \<Longrightarrow> \<not> k < fanout \<Longrightarrow>
     step pf p fanout s (Running (s\<lparr>main_at := Final\<rparr>))"
| last_worker_done: "main_at s = Final \<Longrightarrow> workers s = add_mset Finished ws \<Longrightarrow>
     step pf p fanout s
       (Running (s\<lparr>main_at := Returned, workers := add_mset Gone ws\<rparr>))"
| last_aggregator_done: "main_at s = Final \<Longrightarrow> aggregator_at s = Signalling \<Longrightarrow>
     step pf p fanout s
       (Running (s\<lparr>main_at := Returned, aggregator_at := Ended\<rparr>))"

text \<open>The states a run of \<open>Generate\<close> can be in, and the canvases it can return.\<close>

inductive reaches :: "platform \<Rightarrow> Parameters \<Rightarrow> nat \<Rightarrow> outcome \<Rightarrow> bool"
  for pf :: platform and p :: Parameters and fanout :: nat
where
  start: "reaches pf p fanout (Generate_start pf p fanout)"
| after: "reaches pf p fanout (Running s) \<Longrightarrow> step pf p fanout s t \<Longrightarrow> reaches pf p fanout t"

definition Generate_returns ::
  "platform \<Rightarrow> Parameters \<Rightarrow> nat \<Rightarrow> (int \<times> int \<Rightarrow> NRGBA) \<Rightarrow> bool"
where
  "Generate_returns pf p fanout cv =
     (\<exists>s. reaches pf p fanout (Running s) \<and> main_at s = Returned \<and> canvas s = cv)"

text \<open>
  The image that \<open>Generate\<close> is to return: the color of \<open>CalcPixel\<close> at every pixel of the
  image, the zero pixel elsewhere.
\<close>

definition rendered :: "platform \<Rightarrow> Parameters \<Rightarrow> int \<times> int \<Rightarrow> NRGBA" where
  "rendered pf p pt =
     (case pt of (x, y) \<Rightarrow>
        if 0 \<le> x \<and> x < SizeX p \<and> 0 \<le> y \<and> y < SizeY p then
          (case CalcPixel pf p x y of Inr c \<Rightarrow> c | Inl e \<Rightarrow> zero_pixel)
        else zero_pixel)"

text \<open>
  The number of steps a state has left at most: every row still to be fed costs a
  worker three steps per pixel (compute, send, receive) and two for the row, and every
  goroutine has a few steps of its own.
\<close>

fun worker_left :: "Parameters \<Rightarrow> worker \<Rightarrow> nat" where
  "worker_left p Idle = 1"
| "worker_left p (Busy r c) = 3 * nat (SizeX p - c) + 2"
| "worker_left p (Sending r c color) = 3 * nat (SizeX p - c) + 1"
| "worker_left p Finished = 0"
| "worker_left p Gone = 0"

fun main_left :: "Parameters \<Rightarrow> nat \<Rightarrow> main_state \<Rightarrow> nat" where
  "main_left p fanout (Feeding r) = nat (SizeY p - r) * (3 * nat (SizeX p) + 2) + fanout + 3"
| "main_left p fanout (Waiting k) = (fanout - k) + 2"
| "main_left p fanout Final = 1"
| "main_left p fanout Returned = 0"

definition steps_left :: "Parameters \<Rightarrow> nat \<Rightarrow> scheduler \<Rightarrow> nat" where
  "steps_left p fanout s =
     main_left p fanout (main_at s) + sum_mset (image_mset (worker_left p) (workers s)) +
     (if aggregator_at s = Receiving then 1 else 0) + length (pixelch s)"

text \<open>
  What holds in every state of a run.  A worker that is busy with a row or sends a
  pixel owns the pixels of its row from its column on, the pixels in the channel carry
  the colors of \<open>CalcPixel\<close>, and every pixel of the image is either still owed by the main
  loop, by a worker or by the channel, or it is on the canvas.
\<close>

fun worker_ok :: "platform \<Rightarrow> Parameters \<Rightarrow> worker \<Rightarrow> bool" where
  "worker_ok pf p (Busy r c) = (0 \<le> r \<and> r < SizeY p \<and> 0 \<le> c)"
| "worker_ok pf p (Sending r c color) =
     (0 \<le> r \<and> r < SizeY p \<and> 0 \<le> c \<and> c < SizeX p \<and> CalcPixel pf p c r = Inr color)"
| "worker_ok pf p w = True"

fun pixel_ok :: "platform \<Rightarrow> Parameters \<Rightarrow> int \<times> int \<times> NRGBA \<Rightarrow> bool" where
  "pixel_ok pf p (x, y, color) =
     (0 \<le> x \<and> x < SizeX p \<and> 0 \<le> y \<and> y < SizeY p \<and> CalcPixel pf p x y = Inr color)"

fun owes :: "worker \<Rightarrow> int \<Rightarrow> int \<Rightarrow> bool" where
  "owes (Busy r c) x y = (r = y \<and> c \<le> x)"
| "owes (Sending r c color) x y = (r = y \<and> c \<le> x)"
| "owes w x y = False"

fun active :: "worker \<Rightarrow> bool" where
  "active Finished = False"
| "active Gone = False"
| "active w = True"

fun phase_ok :: "nat \<Rightarrow> scheduler \<Rightarrow> main_state \<Rightarrow> bool" where
  "phase_ok fanout s (Feeding r) =
     (0 \<le> r \<and> (\<forall>w \<in># workers s. active w) \<and> aggregator_at s = Receiving)"
| "phase_ok fanout s (Waiting k) =
     (k \<le> fanout \<and> count (workers s) Gone = k \<and> aggregator_at s = Receiving)"
| "phase_ok fanout s Final =
     ((\<forall>w \<in># workers s. w = Gone) \<and> aggregator_at s \<noteq> Ended \<and>
      (aggregator_at s = Signalling \<longrightarrow> pixelch s = []))"
| "phase_ok fanout s Returned =
     ((\<forall>w \<in># workers s. w = Gone) \<and> aggregator_at s = Ended \<and> pixelch s = [])"

definition pending :: "scheduler \<Rightarrow> int \<Rightarrow> int \<Rightarrow> bool" where
  "pending s x y =
     ((case main_at s of Feeding r \<Rightarrow> r \<le> y | _ \<Rightarrow> False) \<or>
      (\<exists>w \<in># workers s. owes w x y) \<or>
      (\<exists>color. (x, y, color) \<in> set (pixelch s)))"

definition scheduler_ok :: "platform \<Rightarrow> Parameters \<Rightarrow> nat \<Rightarrow> scheduler \<Rightarrow> bool" where
  "scheduler_ok pf p fanout s =
     (size (workers s) = fanout \<and>
      (\<forall>w \<in># workers s. worker_ok pf p w) \<and>
      (\<forall>e \<in> set (pixelch s). pixel_ok pf p e) \<and>
      phase_ok fanout s (main_at s) \<and>
      (\<forall>pt. canvas s pt = rendered pf p pt \<or> canvas s pt = zero_pixel) \<and>
      (\<forall>x y. 0 \<le> x \<and> x < SizeX p \<and> 0 \<le> y \<and> y < SizeY p \<longrightarrow>
         pending s x y \<or> canvas s (x, y) = rendered pf p (x, y)))"

section \<open>Example parameters\<close>

text \<open>
  A small render: a 4 by 3 image around \<open>- 0.75 + 0i\<close> at magnification 0.5, at most 50
  iterations, 2 by 2 samples per pixel, three palette colors.  \<open>example\<close> is the value
  before \<open>Init\<close>, \<open>example_ready\<close> the one \<open>Init\<close> leaves behind.
\<close>

definition black :: NRGBA where "black = \<lparr>cR = 0, cG = 0, cB = 0, cA = 255\<rparr>"
definition white :: NRGBA where "white = \<lparr>cR = 255, cG = 255, cB = 255, cA = 255\<rparr>"
definition orange :: NRGBA where "orange = \<lparr>cR = 255, cG = 128, cB = 0, cA = 255\<rparr>"

definition example :: Parameters where
  "example = \<lparr>CenterX = Finite True (3 / 4), CenterY = fzero, Magnification = fhalf,
     MaxIterations = 50, SizeX = 4, SizeY = 3, AntiAlias = 2, Continuous = False,
     Palette = [white, orange, black], InsideColor = black, subpixOffsets = []\<rparr>"

text \<open>
  The closed examples run on a platform that converts an unrepresentable value to the
  smallest \<open>int\<close>, as amd64 does, and has memory for every allocation.  They follow paths
  on which \<open>math.Log2\<close> is not called; its stand-in returns NaN.
\<close>

definition example_platform :: platform where
  "example_platform = \<lparr>math_Log2 = (\<lambda>x. NaN), int_of_unrepresentable = (\<lambda>x. - (2 ^ 63)),
     out_of_memory = (\<lambda>n. False), hchanSize = 104\<rparr>"

text \<open>
  Any platform, on a machine with memory for every allocation that is asked of it and
  with the runtime of Go 1.23.
\<close>

definition roomy :: "platform \<Rightarrow> platform" where
  "roomy pf = pf\<lparr>out_of_memory := (\<lambda>n. False), hchanSize := 104\<rparr>"

text \<open>The zero value of \<open>Parameters\<close>, what \<open>new(mandel.Parameters)\<close> gives.\<close>

definition zero_Parameters :: Parameters where
  "zero_Parameters = \<lparr>CenterX = fzero, CenterY = fzero, Magnification = fzero,
     MaxIterations = 0, SizeX = 0, SizeY = 0, AntiAlias = 0, Continuous = False,
     Palette = [], InsideColor = zero_pixel, subpixOffsets = []\<rparr>"

text \<open>The parameters that \<open>Init\<close> leaves behind on such a machine.\<close>

definition ready :: "Parameters \<Rightarrow> Parameters" where
  "ready p0 = (case Init example_platform p0 of Inr (p, e) \<Rightarrow> p | Inl e \<Rightarrow> p0)"

definition example_ready :: Parameters where
  "example_ready = ready example"


lemma pow2_powi: "pow2 e = 2 powi e"
proof (induction e rule: pow2.induct)
  case (1 e)
  show ?case
  proof (cases "e = 0")
    case True
    then show ?thesis by (simp add: pow2.simps)
  next
    case nz: False
    show ?thesis
    proof (cases "e < 0")
      case True
      with nz 1(1) have ih: "pow2 (- e) = 2 powi (- e)" by simp
      have "pow2 e = 1 / pow2 (- e)" using True nz by (subst pow2.simps) simp
      also have "\<dots> = 2 powi e" unfolding ih by (simp add: power_int_minus field_simps)
      finally show ?thesis .
    next
      case False
      with nz 1(2) have ih: "pow2 (e div 2) = 2 powi (e div 2)" by simp
      have e: "e = 2 * (e div 2) + e mod 2" by simp
      show ?thesis
      proof (cases "even e")
        case True
        then have "e = e div 2 + e div 2" by presburger
        then have "(2::rat) powi e = 2 powi (e div 2) * 2 powi (e div 2)"
          by (metis power_int_add zero_neq_numeral)
        with True False nz ih show ?thesis
          by (subst pow2.simps) (simp add: Let_def)
      next
        case odd: False
        then have "e = 1 + (e div 2 + e div 2)" by presburger
        then have "(2::rat) powi e = 2 powi 1 * (2 powi (e div 2) * 2 powi (e div 2))"
          by (metis power_int_add zero_neq_numeral)
        with odd False nz ih show ?thesis
          by (subst pow2.simps) (simp add: Let_def)
      qed
    qed
  qed
qed

lemma pow2_pos [simp]: "0 < pow2 e"
  by (simp add: pow2_powi)

lemma pow2_neq0 [simp]: "pow2 e \<noteq> 0"
  by (simp add: pow2_powi)

lemma pow2_add: "pow2 (a + b) = pow2 a * pow2 b"
  by (simp add: pow2_powi power_int_add)

lemma pow2_diff: "pow2 (a - b) = pow2 a / pow2 b"
  by (simp add: pow2_powi power_int_diff)

lemma pow2_nat: "0 \<le> e \<Longrightarrow> pow2 e = 2 ^ nat e"
  by (simp add: pow2_powi power_int_def)

lemma pow2_shift53: "pow2 (E + 1) = 2 ^ 53 * pow2 (E - 52)"
proof -
  have "pow2 (E + 1) = pow2 (53 + (E - 52))"
    by (rule arg_cong[where f = pow2]) simp
  also have "\<dots> = pow2 53 * pow2 (E - 52)"
    by (rule pow2_add)
  also have "pow2 53 = 2 ^ 53"
    by (simp add: pow2_nat)
  finally show ?thesis .
qed

lemma pow2_mono: "a \<le> b \<Longrightarrow> pow2 a \<le> pow2 b"
  by (simp add: pow2_powi power_int_increasing)

lemma pow2_strict_mono: "a < b \<Longrightarrow> pow2 a < pow2 b"
  by (simp add: pow2_powi power_int_strict_increasing)

lemma blen_bounds: "0 < x \<Longrightarrow> 1 \<le> blen x \<and> 2 ^ nat (blen x - 1) \<le> x \<and> x < 2 ^ nat (blen x)"
proof (induction x rule: blen.induct)
  case (1 x)
  show ?case
  proof (cases "x div 2 = 0")
    case True
    with 1(2) have x: "x = 1" by presburger
    have "blen 1 = 1" by (simp add: blen.simps)
    with x show ?thesis by simp
  next
    case False
    with 1(2) have pos: "0 < x div 2" by presburger
    from 1(1)[OF 1(2) pos] have ih: "1 \<le> blen (x div 2)"
      "2 ^ nat (blen (x div 2) - 1) \<le> x div 2" "x div 2 < 2 ^ nat (blen (x div 2))" by auto
    have b: "blen x = blen (x div 2) + 1" using 1(2) by (subst blen.simps) simp
    have n: "nat (blen (x div 2)) = Suc (nat (blen (x div 2) - 1))" using ih(1) by simp
    have "2 * 2 ^ nat (blen (x div 2) - 1) \<le> 2 * (x div 2)" using ih(2) by simp
    also have "\<dots> \<le> x" by presburger
    finally have lo: "2 ^ nat (blen x - 1) \<le> x" using b n by simp
    have "x < 2 * (x div 2 + 1)" by presburger
    also have "\<dots> \<le> 2 * 2 ^ nat (blen (x div 2))" using ih(3) by simp
    finally have hi: "x < 2 ^ nat (blen x)" using b ih(1) by (simp add: nat_add_distrib)
    from lo hi b ih(1) show ?thesis by simp
  qed
qed

lemma blen_rat:
  assumes "0 < x"
  shows "pow2 (blen x - 1) \<le> of_int x \<and> (of_int x :: rat) < pow2 (blen x)"
proof -
  note b = blen_bounds[OF assms]
  have "(of_int (2 ^ nat (blen x - 1)) :: rat) \<le> of_int x"
    using b by (simp only: of_int_le_iff)
  moreover have "(of_int x :: rat) < of_int (2 ^ nat (blen x))"
    using b by (simp only: of_int_less_iff)
  ultimately show ?thesis using b by (simp add: pow2_nat)
qed

lemma ilog2_bounds:
  assumes "0 < q"
  shows "pow2 (ilog2 q) \<le> q \<and> q < pow2 (ilog2 q + 1)"
proof -
  obtain a b where ab: "quotient_of q = (a, b)" by force
  then have b: "0 < b" and q: "q = of_int a / of_int b"
    using quotient_of_denom_pos quotient_of_div by blast+
  with assms have a: "0 < a" by (simp add: zero_less_divide_iff)
  define d where "d = blen a - blen b"
  have alo: "pow2 (blen a - 1) \<le> of_int a" and ahi: "(of_int a :: rat) < pow2 (blen a)"
    using blen_rat[OF a] by simp_all
  have blo: "pow2 (blen b - 1) \<le> of_int b" and bhi: "(of_int b :: rat) < pow2 (blen b)"
    using blen_rat[OF b] by simp_all
  have bpos: "(0::rat) < of_int b" using b by simp
  have "q < pow2 (blen a) / pow2 (blen b - 1)"
    unfolding q using ahi blo bpos a by (intro frac_less) auto
  also have "\<dots> = pow2 (blen a - (blen b - 1))"
    by (simp only: pow2_diff)
  also have "\<dots> = pow2 (d + 1)"
    by (rule arg_cong[where f = pow2]) (simp add: d_def)
  finally have hi: "q < pow2 (d + 1)" .
  have "pow2 (d - 1) = pow2 (blen a - 1 - blen b)"
    by (rule arg_cong[where f = pow2]) (simp add: d_def)
  also have "\<dots> = pow2 (blen a - 1) / pow2 (blen b)"
    by (simp only: pow2_diff)
  also have "\<dots> < q"
    unfolding q using alo bhi bpos by (intro frac_less2) auto
  finally have lo: "pow2 (d - 1) < q" .
  have il: "ilog2 q = (if pow2 d \<le> q then d else d - 1)"
    by (simp add: ilog2_def ab d_def Let_def)
  show ?thesis
    using lo hi by (auto simp: il)
qed

lemma ilog2_unique:
  assumes "pow2 e \<le> q" "q < pow2 (e + 1)"
  shows "ilog2 q = e"
proof -
  have q: "0 < q" using assms(1) pow2_pos[of e] by linarith
  note b = ilog2_bounds[OF q]
  have "\<not> ilog2 q < e"
  proof
    assume "ilog2 q < e"
    then have "pow2 (ilog2 q + 1) \<le> pow2 e" by (intro pow2_mono) simp
    with b assms show False by linarith
  qed
  moreover have "\<not> e < ilog2 q"
  proof
    assume "e < ilog2 q"
    then have "pow2 (e + 1) \<le> pow2 (ilog2 q)" by (intro pow2_mono) simp
    with b assms show False by linarith
  qed
  ultimately show ?thesis by simp
qed

lemma rhe_of_int [simp]: "rhe (of_int k) = k"
  by (simp add: rhe_def)


lemma rhe_bounds: "\<lfloor>q\<rfloor> \<le> rhe q \<and> rhe q \<le> \<lfloor>q\<rfloor> + 1"
  by (simp add: rhe_def Let_def)

lemma rhe_nonneg: "0 \<le> q \<Longrightarrow> 0 \<le> rhe q"
  using rhe_bounds[of q] by (simp add: order_trans[of 0 "\<lfloor>q\<rfloor>"])

lemma rhe_le: "q \<le> of_int n \<Longrightarrow> rhe q \<le> n"
proof -
  assume a: "q \<le> of_int n"
  show ?thesis
  proof (cases "q = of_int n")
    case True
    then show ?thesis by simp
  next
    case False
    with a have "q < of_int n" by simp
    then have "\<lfloor>q\<rfloor> < n" by (simp add: floor_less_iff)
    with rhe_bounds[of q] show ?thesis by linarith
  qed
qed

lemma rhe_ge: "of_int n \<le> q \<Longrightarrow> n \<le> rhe q"
  using rhe_bounds[of q] by (meson le_floor_iff order_trans)

lemma rnd_0 [simp]: "rnd 0 = 0"
  by (simp add: rnd_def)

lemma rnd_nonneg: "0 \<le> m \<Longrightarrow> 0 \<le> rnd m"
proof -
  assume m: "0 \<le> m"
  have h: "0 \<le> rhe (m / u)" if "0 < u" for u
    using m that by (intro rhe_nonneg) simp
  have "0 \<le> of_int (rhe (m / u)) * u" if "0 < u" for u :: rat
    using h[OF that] that by (intro mult_nonneg_nonneg) simp_all
  then show ?thesis
    by (simp add: rnd_def Let_def)
qed

text \<open>A magnitude with at most 53 significant bits above \<open>2 ^ - 1074\<close> is kept as it is.\<close>

lemma rnd_exact:
  assumes k: "0 \<le> k" "k < 2 ^ 53" and e: "- 1074 \<le> e"
  shows "rnd (of_int k * pow2 e) = of_int k * pow2 e"
proof (cases "k = 0")
  case True
  then show ?thesis by simp
next
  case False
  with k have kpos: "0 < k" by simp
  define q :: rat where "q = of_int k * pow2 e"
  have qpos: "0 < q" using kpos by (simp add: q_def)
  define E where "E = max (ilog2 q) (- 1022)"
  have "(of_int k :: rat) < of_int (2 ^ 53)" using k(2) by (simp only: of_int_less_iff)
  then have "q < 2 ^ 53 * pow2 e" by (simp add: q_def)
  also have "\<dots> = pow2 (53 + e)" by (simp add: pow2_add pow2_nat)
  finally have qhi: "q < pow2 (53 + e)" .
  have "ilog2 q < 53 + e"
  proof (rule ccontr)
    assume "\<not> ilog2 q < 53 + e"
    then have "pow2 (53 + e) \<le> pow2 (ilog2 q)" by (intro pow2_mono) simp
    with ilog2_bounds[OF qpos] qhi show False by linarith
  qed
  with e have Ele: "E \<le> e + 52" by (simp add: E_def)
  define j where "j = e + 52 - E"
  have j: "0 \<le> j" using Ele by (simp add: j_def)
  have "pow2 e = pow2 j * pow2 (E - 52)"
    unfolding pow2_add[symmetric] by (rule arg_cong[where f = pow2]) (simp add: j_def)
  then have "q / pow2 (E - 52) = of_int k * pow2 j"
    by (simp add: q_def)
  also have "\<dots> = of_int (k * 2 ^ nat j)" using j by (simp add: pow2_nat)
  finally have quot: "q / pow2 (E - 52) = of_int (k * 2 ^ nat j)" .
  have "rnd q = of_int (rhe (q / pow2 (E - 52))) * pow2 (E - 52)"
    using qpos by (simp add: rnd_def E_def Let_def)
  also have "\<dots> = q / pow2 (E - 52) * pow2 (E - 52)"
    unfolding quot rhe_of_int ..
  also have "\<dots> = q" by simp
  finally show ?thesis by (simp add: q_def)
qed

lemma rnd_int: "0 \<le> k \<Longrightarrow> k < 2 ^ 53 \<Longrightarrow> rnd (of_int k) = of_int k"
  using rnd_exact[of k 0] by (simp add: pow2.simps)

text \<open>Rounding never leaves the binade: \<open>2 ^ E \<le> m < 2 ^ (E + 1)\<close> gives \<open>2 ^ E \<le> rnd m \<le> 2 ^ (E + 1)\<close>.\<close>

lemma rnd_idem:
  assumes "0 \<le> m"
  shows "rnd (rnd m) = rnd m"
proof (cases "m = 0")
  case True
  then show ?thesis by simp
next
  case False
  with assms have mpos: "0 < m" by simp
  define E where "E = max (ilog2 m) (- 1022)"
  define u where "u = pow2 (E - 52)"
  define k where "k = rhe (m / u)"
  have upos: "0 < u" by (simp add: u_def)
  have r: "rnd m = of_int k * u"
    using mpos by (simp add: rnd_def E_def u_def k_def Let_def)
  have "m < pow2 (ilog2 m + 1)" using ilog2_bounds[OF mpos] by simp
  also have "\<dots> \<le> pow2 (E + 1)" by (intro pow2_mono) (simp add: E_def)
  also have "\<dots> = 2 ^ 53 * u"
    unfolding u_def by (rule pow2_shift53)
  finally have "m / u < 2 ^ 53" using upos by (simp add: pos_divide_less_eq)
  then have "m / u \<le> of_int (2 ^ 53)" by simp
  then have khi: "k \<le> 2 ^ 53" unfolding k_def by (rule rhe_le)
  have klo: "0 \<le> k" unfolding k_def using mpos upos by (intro rhe_nonneg) simp
  have E: "- 1074 \<le> E - 52" by (simp add: E_def)
  show ?thesis
  proof (cases "k = 2 ^ 53")
    case True
    have "of_int k * u = of_int 1 * pow2 (E + 1)"
      unfolding True u_def by (simp add: pow2_shift53)
    moreover have "rnd (of_int 1 * pow2 (E + 1)) = of_int 1 * pow2 (E + 1)"
      using E by (intro rnd_exact) simp_all
    ultimately show ?thesis unfolding r by simp
  next
    case False
    with khi have "k < 2 ^ 53" by simp
    then show ?thesis unfolding r u_def using klo E by (intro rnd_exact)
  qed
qed

lemma rhe_mono:
  assumes "a \<le> b"
  shows "rhe a \<le> rhe b"
proof (cases "\<lfloor>a\<rfloor> = \<lfloor>b\<rfloor>")
  case True
  have "a - of_int \<lfloor>b\<rfloor> \<le> b - of_int \<lfloor>b\<rfloor>" using assms by simp
  then show ?thesis
    by (auto simp: rhe_def Let_def True)
next
  case False
  have "\<lfloor>a\<rfloor> \<le> \<lfloor>b\<rfloor>" using assms by (rule floor_mono)
  with False have "\<lfloor>a\<rfloor> + 1 \<le> \<lfloor>b\<rfloor>" by simp
  with rhe_bounds[of a] rhe_bounds[of b] show ?thesis by linarith
qed

lemma rhe_err: "\<bar>of_int (rhe q) - q\<bar> \<le> 1 / 2"
proof -
  have "of_int \<lfloor>q\<rfloor> \<le> q" "q < of_int \<lfloor>q\<rfloor> + 1" by linarith+
  then show ?thesis
    by (auto simp: rhe_def Let_def abs_le_iff)
qed

text \<open>The exponent that \<open>rnd\<close> works with.\<close>

lemma rnd_unfold:
  assumes "0 < m"
  shows "rnd m = of_int (rhe (m / pow2 (max (ilog2 m) (- 1022) - 52))) *
                   pow2 (max (ilog2 m) (- 1022) - 52)"
  using assms by (simp add: rnd_def Let_def)

lemma ilog2_mono:
  assumes "0 < a" "a \<le> b"
  shows "ilog2 a \<le> ilog2 b"
proof (rule ccontr)
  assume "\<not> ilog2 a \<le> ilog2 b"
  then have "pow2 (ilog2 b + 1) \<le> pow2 (ilog2 a)" by (intro pow2_mono) simp
  moreover have "0 < b" using assms by simp
  ultimately show False
    using ilog2_bounds[OF assms(1)] ilog2_bounds[OF \<open>0 < b\<close>] assms(2) by linarith
qed

lemma rnd_upper:
  assumes "0 < m"
  shows "rnd m \<le> pow2 (max (ilog2 m) (- 1022) + 1)"
proof -
  define E where "E = max (ilog2 m) (- 1022)"
  define u where "u = pow2 (E - 52)"
  have upos: "0 < u" by (simp add: u_def)
  have "m < pow2 (ilog2 m + 1)" using ilog2_bounds[OF assms] by simp
  also have "\<dots> \<le> pow2 (E + 1)" by (intro pow2_mono) (simp add: E_def)
  also have "\<dots> = 2 ^ 53 * u" unfolding u_def by (rule pow2_shift53)
  finally have "m / u \<le> of_int (2 ^ 53)" using upos by (simp add: pos_divide_less_eq less_imp_le)
  then have "rhe (m / u) \<le> 2 ^ 53" by (rule rhe_le)
  then have "(of_int (rhe (m / u)) :: rat) \<le> of_int (2 ^ 53)" by (simp only: of_int_le_iff)
  then have "of_int (rhe (m / u)) * u \<le> 2 ^ 53 * u" using upos by simp
  also have "\<dots> = pow2 (E + 1)" unfolding u_def by (rule pow2_shift53[symmetric])
  finally show ?thesis unfolding rnd_unfold[OF assms] E_def u_def .
qed

lemma pow2_shift52: "pow2 E = 2 ^ 52 * pow2 (E - 52)"
proof -
  have "pow2 E = pow2 (52 + (E - 52))"
    by (rule arg_cong[where f = pow2]) simp
  also have "\<dots> = pow2 52 * pow2 (E - 52)"
    by (rule pow2_add)
  also have "pow2 52 = 2 ^ 52"
    by (simp add: pow2_nat)
  finally show ?thesis .
qed

lemma rnd_lower:
  assumes "pow2 E \<le> m" "- 1022 \<le> E" "ilog2 m = E"
  shows "pow2 E \<le> rnd m"
proof -
  have mpos: "0 < m" using assms(1) pow2_pos[of E] by linarith
  define u where "u = pow2 (E - 52)"
  have upos: "0 < u" by (simp add: u_def)
  have mx: "max (ilog2 m) (- 1022) = E" using assms by simp
  have "of_int (2 ^ 52) * u \<le> m" using assms(1) pow2_shift52[of E] by (simp add: u_def)
  then have "of_int (2 ^ 52) \<le> m / u" using upos by (simp add: pos_le_divide_eq)
  then have "2 ^ 52 \<le> rhe (m / u)" by (rule rhe_ge)
  then have "(of_int (2 ^ 52) :: rat) \<le> of_int (rhe (m / u))" by (simp only: of_int_le_iff)
  then have "2 ^ 52 * u \<le> of_int (rhe (m / u)) * u" using upos by simp
  then show ?thesis
    unfolding rnd_unfold[OF mpos] mx u_def pow2_shift52[of E, symmetric] .
qed

lemma rnd_mono:
  assumes "0 \<le> a" "a \<le> b"
  shows "rnd a \<le> rnd b"
proof (cases "a = 0")
  case True
  then show ?thesis using rnd_nonneg[of b] assms by simp
next
  case False
  with assms have apos: "0 < a" and bpos: "0 < b" by simp_all
  define Ea where "Ea = max (ilog2 a) (- 1022)"
  define Eb where "Eb = max (ilog2 b) (- 1022)"
  have le: "Ea \<le> Eb" using ilog2_mono[OF apos assms(2)] by (simp add: Ea_def Eb_def)
  show ?thesis
  proof (cases "Ea = Eb")
    case True
    have "a / pow2 (Ea - 52) \<le> b / pow2 (Ea - 52)"
      by (rule divide_right_mono[OF assms(2)]) (simp add: less_imp_le)
    then have "rhe (a / pow2 (Ea - 52)) \<le> rhe (b / pow2 (Ea - 52))" by (rule rhe_mono)
    then have "(of_int (rhe (a / pow2 (Ea - 52))) :: rat) \<le> of_int (rhe (b / pow2 (Ea - 52)))"
      by (simp only: of_int_le_iff)
    then show ?thesis
      unfolding rnd_unfold[OF apos] rnd_unfold[OF bpos] Ea_def[symmetric] Eb_def[symmetric]
        True[symmetric]
      by (simp add: mult_right_mono)
  next
    case False
    with le have lt: "Ea < Eb" by simp
    then have eb: "ilog2 b = Eb" "- 1022 \<le> Eb" by (auto simp: Ea_def Eb_def)
    have "rnd a \<le> pow2 (Ea + 1)" using rnd_upper[OF apos] by (simp add: Ea_def)
    also have "\<dots> \<le> pow2 Eb" using lt by (intro pow2_mono) simp
    also have "\<dots> \<le> rnd b"
      using ilog2_bounds[OF bpos] eb by (intro rnd_lower) simp_all
    finally show ?thesis .
  qed
qed

lemma rnd_err:
  assumes "0 < m" "m < pow2 e" "- 1021 \<le> e"
  shows "\<bar>rnd m - m\<bar> \<le> pow2 (e - 54)"
proof -
  define E where "E = max (ilog2 m) (- 1022)"
  define u where "u = pow2 (E - 52)"
  have upos: "0 < u" by (simp add: u_def)
  have "ilog2 m < e"
  proof (rule ccontr)
    assume "\<not> ilog2 m < e"
    then have "pow2 e \<le> pow2 (ilog2 m)" by (intro pow2_mono) simp
    with ilog2_bounds[OF assms(1)] assms(2) show False by linarith
  qed
  with assms(3) have "E - 52 \<le> e - 53" by (simp add: E_def)
  then have ule: "u \<le> pow2 (e - 53)" unfolding u_def by (rule pow2_mono)
  have "\<bar>of_int (rhe (m / u)) - m / u\<bar> * u \<le> 1 / 2 * u"
    using rhe_err[of "m / u"] upos by (intro mult_right_mono) simp_all
  moreover have "\<bar>of_int (rhe (m / u)) - m / u\<bar> * u = \<bar>of_int (rhe (m / u)) * u - m\<bar>"
  proof -
    have "\<bar>of_int (rhe (m / u)) - m / u\<bar> * u = \<bar>(of_int (rhe (m / u)) - m / u) * u\<bar>"
      using upos by (simp add: abs_mult)
    also have "(of_int (rhe (m / u)) - m / u) * u = of_int (rhe (m / u)) * u - m"
      using upos by (simp add: algebra_simps)
    finally show ?thesis .
  qed
  ultimately have "\<bar>rnd m - m\<bar> \<le> u / 2"
    unfolding rnd_unfold[OF assms(1)] E_def[symmetric] u_def[symmetric] by simp
  also have "\<dots> \<le> pow2 (e - 53) / 2" using ule by simp
  also have "\<dots> = pow2 (e - 54)"
  proof -
    have "pow2 (e - 53) = pow2 (1 + (e - 54))"
      by (rule arg_cong[where f = pow2]) simp
    also have "\<dots> = pow2 1 * pow2 (e - 54)" by (rule pow2_add)
    also have "pow2 1 = 2" by (simp add: pow2_nat)
    finally show ?thesis by simp
  qed
  finally show ?thesis .
qed

lemma round_to_exact: "rnd m = m \<Longrightarrow> m < pow2 1024 \<Longrightarrow> round_to s m = Finite s m"
  by (simp add: round_to_def)

lemma pow2_1024_gt: "m \<le> 2 ^ 63 \<Longrightarrow> m < pow2 1024"
proof -
  assume "m \<le> 2 ^ 63"
  moreover have "(2::rat) ^ 63 < 2 ^ 1024" by (rule power_strict_increasing) simp_all
  ultimately show ?thesis by (simp add: pow2_nat)
qed

lemma float64_of_int_exact:
  assumes "\<bar>k\<bar> < 2 ^ 53"
  shows "float64_of_int k = Finite (k < 0) (of_int \<bar>k\<bar>)"
proof -
  have r: "rnd (of_int \<bar>k\<bar>) = of_int \<bar>k\<bar>"
    using assms by (intro rnd_int) simp_all
  have "(of_int \<bar>k\<bar> :: rat) \<le> of_int (2 ^ 63)"
    using assms by (simp only: of_int_le_iff) simp
  then have "(of_int \<bar>k\<bar> :: rat) < pow2 1024"
    by (intro pow2_1024_gt) simp
  with r show ?thesis
    by (simp add: float64_of_int_def round_to_exact flip: of_int_abs)
qed

lemma float64_of_int_0 [simp]: "float64_of_int 0 = fzero"
  using float64_of_int_exact[of 0] by (simp add: fzero_def)

lemma float64_of_int_1 [simp]: "float64_of_int 1 = fone"
  using float64_of_int_exact[of 1] by (simp add: fone_def)

lemma go_quot_nonneg: "0 \<le> a \<Longrightarrow> 0 < b \<Longrightarrow> go_quot a b = a div b"
  by (cases "a = 0") (simp_all add: go_quot_def)

lemma go_rem_nonneg: "0 \<le> a \<Longrightarrow> 0 < b \<Longrightarrow> go_rem a b = a mod b"
  by (simp add: go_rem_def go_quot_nonneg minus_mult_div_eq_mod)

lemma go_rem_1 [simp]: "go_rem a 1 = 0"
  by (simp add: go_rem_def go_quot_def sgn_mult_abs)

lemma palette_at_nonneg:
  assumes "Palette p \<noteq> []" "0 \<le> k"
  shows "palette_at p k = Inr (Palette p ! nat (k mod int (length (Palette p))))"
proof -
  have n: "0 < int (length (Palette p))" using assms(1) by simp
  show ?thesis
    using n assms(2) by (simp add: palette_at_def Let_def go_rem_nonneg)
qed

lemma palette_at_single: "Palette p = [c] \<Longrightarrow> palette_at p k = Inr c"
  by (simp add: palette_at_def)

lemma int_of_float64_nonneg:
  "0 \<le> m \<Longrightarrow> m < 2 ^ 63 \<Longrightarrow> int_of_float64 pf (Finite False m) = \<lfloor>m\<rfloor>"
  by (simp add: floor_less_iff order_trans[of "- (2 ^ 63)" 0 "\<lfloor>m\<rfloor>"])

lemma feq_fzero [simp]: "feq (Finite s m) fzero = (m = 0)"
  by (simp add: fzero_def sval_def)

text \<open>
  C6.  For every palette and in both modes, the color mapper maps the sentinel escape value
  0 to the red, green and blue channels of the configured inside color.  The negative
  zero compares equal to 0 and is mapped in the same way.
\<close>

theorem getColor_sentinel:
  "getColor pf p fzero =
     Inr (uint (cR (InsideColor p)), uint (cG (InsideColor p)), uint (cB (InsideColor p))) \<and>
   getColor pf p (Finite True 0) =
     Inr (uint (cR (InsideColor p)), uint (cG (InsideColor p)), uint (cB (InsideColor p)))"
  by (simp add: getColor_def rgb_of_def Let_def fzero_def sval_def)

text \<open>
  The count \<open>float64(n)\<close> of an iteration \<open>n\<close> up to \<open>2 ^ 53\<close> is exact, and its conversion
  back to \<open>int\<close> is \<open>n\<close>.
\<close>

lemma getColor_count:
  assumes "\<not> Continuous p" and "Palette p \<noteq> []" and n: "1 \<le> n \<and> n \<le> 2 ^ 53"
  shows "getColor pf p (float64_of_int n) =
      Inr (rgb_of (Palette p ! nat (n mod int (length (Palette p)))))"
proof (cases "n = 2 ^ 53")
  case False
  with n have f: "float64_of_int n = Finite False (of_int n)"
    using float64_of_int_exact[of n] by simp
  have "(of_int n :: rat) < of_int (2 ^ 63)"
    using n by (simp only: of_int_less_iff) simp
  then have i: "int_of_float64 pf (Finite False (of_int n)) = n"
    using n by (subst int_of_float64_nonneg) simp_all
  show ?thesis
    using assms n by (simp add: f getColor_def i palette_at_nonneg)
next
  case True
  have "rnd (of_int 1 * pow2 53) = of_int 1 * pow2 53"
    by (intro rnd_exact) simp_all
  then have r: "rnd (2 ^ 53) = 2 ^ 53" by (simp add: pow2_nat)
  have f: "float64_of_int (2 ^ 53) = Finite False (2 ^ 53)"
    unfolding float64_of_int_def using r
    by (simp add: round_to_exact pow2_1024_gt)
  have i: "int_of_float64 pf (Finite False (2 ^ 53)) = 2 ^ 53"
    by (subst int_of_float64_nonneg) simp_all
  show ?thesis
    using assms f[simplified] i[simplified]
    by (simp add: getColor_def palette_at_nonneg True)
qed

text \<open>
  C5.  In discrete mode, with a non-empty palette, an escaping iteration count
  \<open>iters \<ge> 1\<close> (below \<open>2 ^ 63\<close>, the range of \<open>int\<close>) is mapped to the red, green and blue
  channels of the palette color at index \<open>floor(iters) mod length\<close>; for the count
  \<open>float64(n)\<close> that the evaluator returns at iteration \<open>n \<le> 2 ^ 53\<close> this is the index
  \<open>n mod length\<close>; and a palette of one color gives the channels of that color for every
  value that is not the sentinel.
\<close>

theorem getColor_discrete:
  assumes "\<not> Continuous p" and "Palette p \<noteq> []"
  shows "(\<forall>m c. 1 \<le> m \<and> m < 2 ^ 63 \<and>
              c = Palette p ! nat (\<lfloor>m\<rfloor> mod int (length (Palette p))) \<longrightarrow>
            getColor pf p (Finite False m) = Inr (uint (cR c), uint (cG c), uint (cB c))) \<and>
         (\<forall>n c. 1 \<le> n \<and> n \<le> 2 ^ 53 \<and>
              c = Palette p ! nat (n mod int (length (Palette p))) \<longrightarrow>
            getColor pf p (float64_of_int n) = Inr (uint (cR c), uint (cG c), uint (cB c))) \<and>
         (\<forall>c iters. Palette p = [c] \<and> \<not> feq iters fzero \<longrightarrow>
            getColor pf p iters = Inr (uint (cR c), uint (cG c), uint (cB c)))"
proof (intro conjI allI impI)
  fix m :: rat and c
  assume m: "1 \<le> m \<and> m < 2 ^ 63 \<and> c = Palette p ! nat (\<lfloor>m\<rfloor> mod int (length (Palette p)))"
  then have i: "int_of_float64 pf (Finite False m) = \<lfloor>m\<rfloor>"
    by (intro int_of_float64_nonneg) simp_all
  have "0 \<le> \<lfloor>m\<rfloor>" using m by simp
  then show "getColor pf p (Finite False m) = Inr (uint (cR c), uint (cG c), uint (cB c))"
    using assms m by (simp add: getColor_def i palette_at_nonneg rgb_of_def)
next
  fix n :: int and c
  assume n: "1 \<le> n \<and> n \<le> 2 ^ 53 \<and> c = Palette p ! nat (n mod int (length (Palette p)))"
  then have "1 \<le> n \<and> n \<le> 2 ^ 53" by simp
  from getColor_count[OF assms this, of pf] n
  show "getColor pf p (float64_of_int n) = Inr (uint (cR c), uint (cG c), uint (cB c))"
    by (simp add: rgb_of_def)
next
  fix c iters
  assume "Palette p = [c] \<and> \<not> feq iters fzero"
  then show "getColor pf p iters = Inr (uint (cR c), uint (cG c), uint (cB c))"
    using assms by (simp add: getColor_def palette_at_single rgb_of_def)
qed

lemma int_range:
  fixes z :: int
  shows "0 \<le> z \<Longrightarrow> z < 2 ^ 63 \<Longrightarrow> - (2 ^ 63) \<le> z \<and> z < 2 ^ 63"
    and "0 \<le> z \<Longrightarrow> z \<le> 2 ^ 63 \<Longrightarrow> - (2 ^ 63) \<le> - z \<and> - z < 2 ^ 63"
  by simp_all

lemma int_of_float64_trunc:
  assumes "0 \<le> m" "m < 2 ^ 63"
  shows "int_of_float64 pf (Finite s m) = (if s then - \<lfloor>m\<rfloor> else \<lfloor>m\<rfloor>)"
proof -
  have fl: "0 \<le> \<lfloor>m\<rfloor>" "\<lfloor>m\<rfloor> < 2 ^ 63"
    using assms by (simp_all add: floor_less_iff)
  show ?thesis
  proof (cases s)
    case True
    have "- (2 ^ 63) \<le> - \<lfloor>m\<rfloor> \<and> - \<lfloor>m\<rfloor> < 2 ^ 63"
      by (rule int_range(2)[OF fl(1) less_imp_le[OF fl(2)]])
    then show ?thesis
      using True unfolding int_of_float64.simps Let_def by (simp only: if_True simp_thms)
  next
    case False
    have "- (2 ^ 63) \<le> \<lfloor>m\<rfloor> \<and> \<lfloor>m\<rfloor> < 2 ^ 63"
      by (rule int_range(1)[OF fl])
    then show ?thesis
      using False unfolding int_of_float64.simps Let_def by (simp only: if_True if_False simp_thms)
  qed
qed

lemma int_of_float64_Floor:
  assumes "0 \<le> m" "m < 2 ^ 63"
  shows "int_of_float64 pf (Floor (Finite s m)) = \<lfloor>sval s m\<rfloor>"
proof (cases s)
  case False
  then show ?thesis using assms int_of_float64_trunc[of "of_int \<lfloor>m\<rfloor>" pf False]
    by (simp add: sval_def floor_less_iff)
next
  case True
  have c: "0 \<le> \<lceil>m\<rceil>" "\<lceil>m\<rceil> \<le> 2 ^ 63"
    using assms by (simp_all add: ceiling_le_iff order_trans[of 0 m] less_imp_le)
  have fl: "\<lfloor>- m\<rfloor> = - \<lceil>m\<rceil>" by (simp add: ceiling_def)
  have r: "- (2 ^ 63) \<le> - \<lceil>m\<rceil> \<and> - \<lceil>m\<rceil> < 2 ^ 63"
    using c by (rule int_range(2))
  have "int_of_float64 pf (Floor (Finite True m)) = - \<lceil>m\<rceil>"
    unfolding Floor.simps int_of_float64.simps Let_def if_True floor_of_int
    using r by (simp only: if_True simp_thms)
  with True fl show ?thesis by (simp add: sval_def)
qed

text \<open>
  C4.  In continuous mode, with a non-empty palette, a value \<open>iters\<close> that is not the
  sentinel is mapped to the interpolation between the palette colors at the indices
  \<open>(f - 1) mod length\<close> and \<open>f mod length\<close>, where \<open>f = int(math.Floor(iters))\<close>, and at the
  indices \<open>0 mod length\<close> and \<open>1 mod length\<close> when \<open>f < 1\<close>.  The weight is
  \<open>iters - math.Floor(iters)\<close>, each channel is interpolated on its own as
  \<open>c1 * (1 - weight) + c2 * weight\<close>, and the conversion of the result to \<open>int\<close> discards
  the fraction: it truncates towards zero and never rounds.  For a finite \<open>iters\<close> in the
  range of \<open>int\<close>, \<open>f\<close> is the floor of its value.
\<close>

theorem getColor_continuous:
  assumes "Continuous p" and "Palette p \<noteq> []" and "\<not> feq iters fzero"
  shows "(let n = int (length (Palette p));
              f = int_of_float64 pf (Floor iters);
              i1 = (if f < 1 then 0 else f - 1);
              i2 = (if f < 1 then 1 else f);
              c1 = Palette p ! nat (i1 mod n);
              c2 = Palette p ! nat (i2 mod n);
              weight = fsub iters (Floor iters);
              mix = (\<lambda>a b. fadd (fmul (uint8_to_float64 a) (fsub fone weight))
                               (fmul (uint8_to_float64 b) weight))
          in getColor pf p iters =
               Inr (int_of_float64 pf (mix (cR c1) (cR c2)),
                    int_of_float64 pf (mix (cG c1) (cG c2)),
                    int_of_float64 pf (mix (cB c1) (cB c2)))) \<and>
         (\<forall>s m. 0 \<le> m \<and> m < 2 ^ 63 \<longrightarrow>
            int_of_float64 pf (Finite s m) = (if s then - \<lfloor>m\<rfloor> else \<lfloor>m\<rfloor>)) \<and>
         (\<forall>s m. 0 \<le> m \<and> m < 2 ^ 63 \<longrightarrow>
            int_of_float64 pf (Floor (Finite s m)) = \<lfloor>sval s m\<rfloor>)"
proof (intro conjI allI impI)
  define f where "f = int_of_float64 pf (Floor iters)"
  show "let n = int (length (Palette p));
            f = int_of_float64 pf (Floor iters);
            i1 = (if f < 1 then 0 else f - 1);
            i2 = (if f < 1 then 1 else f);
            c1 = Palette p ! nat (i1 mod n);
            c2 = Palette p ! nat (i2 mod n);
            weight = fsub iters (Floor iters);
            mix = (\<lambda>a b. fadd (fmul (uint8_to_float64 a) (fsub fone weight))
                             (fmul (uint8_to_float64 b) weight))
        in getColor pf p iters =
             Inr (int_of_float64 pf (mix (cR c1) (cR c2)),
                  int_of_float64 pf (mix (cG c1) (cG c2)),
                  int_of_float64 pf (mix (cB c1) (cB c2)))"
  proof (cases "f < 1")
    case True
    then show ?thesis
      using assms
      by (simp add: getColor_def Let_def blend_def palette_at_nonneg flip: f_def)
  next
    case False
    then show ?thesis
      using assms
      by (simp add: getColor_def Let_def blend_def palette_at_nonneg flip: f_def)
  qed
next
  fix s m
  assume "0 \<le> m \<and> m < (2::rat) ^ 63"
  then show "int_of_float64 pf (Finite s m) = (if s then - \<lfloor>m\<rfloor> else \<lfloor>m\<rfloor>)"
    using int_of_float64_trunc[of m pf s] by simp
next
  fix s m
  assume "0 \<le> m \<and> m < (2::rat) ^ 63"
  then show "int_of_float64 pf (Floor (Finite s m)) = \<lfloor>sval s m\<rfloor>"
    using int_of_float64_Floor[of m pf s] by simp
qed

lemma example_simps:
  "Continuous example = False" "Palette example = [white, orange, black]"
  "AntiAlias example = 2" "SizeX example = 4" "SizeY example = 3" "MaxIterations example = 50"
  "subpixOffsets example = []" "InsideColor example = black"
  "CenterX example = Finite True (3 / 4)" "CenterY example = fzero" "Magnification example = fhalf"
  by (simp_all add: example_def)

lemma color_simps:
  "uint (cR white) = 255" "uint (cG white) = 255" "uint (cB white) = 255"
  "uint (cR orange) = 255" "uint (cG orange) = 128" "uint (cB orange) = 0"
  "uint (cR black) = 0" "uint (cG black) = 0" "uint (cB black) = 0"
  by (simp_all add: white_def orange_def black_def)

theorem getColor_discrete_witness:
  "\<forall>pf. \<not> Continuous example \<and> Palette example \<noteq> [] \<and>
     (1::rat) \<le> 7 / 2 \<and> (7 / 2 :: rat) < 2 ^ 63 \<and>
     getColor pf example (Finite False (7 / 2)) = Inr (255, 255, 255) \<and>
     (1::int) \<le> 4 \<and> (4::int) \<le> 2 ^ 53 \<and>
     getColor pf example (float64_of_int 4) = Inr (255, 128, 0) \<and>
     \<not> Continuous (example\<lparr>Palette := [orange]\<rparr>) \<and>
     Palette (example\<lparr>Palette := [orange]\<rparr>) = [orange] \<and> \<not> feq (Finite True 7) fzero \<and>
     getColor pf (example\<lparr>Palette := [orange]\<rparr>) (Finite True 7) = Inr (255, 128, 0)"
proof
  fix pf
  have h: "\<not> Continuous example" "Palette example \<noteq> []"
    by (simp_all add: example_simps)
  have h': "\<not> Continuous (example\<lparr>Palette := [orange]\<rparr>)"
    "Palette (example\<lparr>Palette := [orange]\<rparr>) \<noteq> []"
    by (simp_all add: example_simps)
  have f: "\<lfloor>7 / 2 :: rat\<rfloor> = 3" by (rule floor_unique) simp_all
  note a = getColor_discrete[OF h, of pf] and b = getColor_discrete[OF h', of pf]
  have "(1::rat) \<le> 7 / 2 \<and> (7 / 2 :: rat) < 2 ^ 63 \<and>
      white = Palette example ! nat (\<lfloor>7 / 2 :: rat\<rfloor> mod int (length (Palette example)))"
    unfolding f by (simp add: example_simps)
  with a have "getColor pf example (Finite False (7 / 2)) =
      Inr (uint (cR white), uint (cG white), uint (cB white))"
    by blast
  then have 1: "getColor pf example (Finite False (7 / 2)) = Inr (255, 255, 255)"
    by (simp only: color_simps)
  have "(1::int) \<le> 4 \<and> (4::int) \<le> 2 ^ 53 \<and>
      orange = Palette example ! nat (4 mod int (length (Palette example)))"
    by (simp add: example_simps)
  with a have "getColor pf example (float64_of_int 4) =
      Inr (uint (cR orange), uint (cG orange), uint (cB orange))"
    by blast
  then have 2: "getColor pf example (float64_of_int 4) = Inr (255, 128, 0)"
    by (simp only: color_simps)
  have "Palette (example\<lparr>Palette := [orange]\<rparr>) = [orange] \<and> \<not> feq (Finite True 7) fzero"
    by simp
  with b have "getColor pf (example\<lparr>Palette := [orange]\<rparr>) (Finite True 7) =
      Inr (uint (cR orange), uint (cG orange), uint (cB orange))"
    by blast
  then have 3: "getColor pf (example\<lparr>Palette := [orange]\<rparr>) (Finite True 7) = Inr (255, 128, 0)"
    by (simp only: color_simps)
  from h 1 2 3 show "\<not> Continuous example \<and> Palette example \<noteq> [] \<and>
     (1::rat) \<le> 7 / 2 \<and> (7 / 2 :: rat) < 2 ^ 63 \<and>
     getColor pf example (Finite False (7 / 2)) = Inr (255, 255, 255) \<and>
     (1::int) \<le> 4 \<and> (4::int) \<le> 2 ^ 53 \<and>
     getColor pf example (float64_of_int 4) = Inr (255, 128, 0) \<and>
     \<not> Continuous (example\<lparr>Palette := [orange]\<rparr>) \<and>
     Palette (example\<lparr>Palette := [orange]\<rparr>) = [orange] \<and> \<not> feq (Finite True 7) fzero \<and>
     getColor pf (example\<lparr>Palette := [orange]\<rparr>) (Finite True 7) = Inr (255, 128, 0)"
    by (simp add: example_simps)
qed

theorem getColor_sentinel_witness:
  "\<forall>pf. getColor pf (example\<lparr>InsideColor := orange\<rparr>) fzero = Inr (255, 128, 0) \<and>
     getColor pf (example\<lparr>InsideColor := orange, Continuous := True\<rparr>) (Finite True 0) =
       Inr (255, 128, 0) \<and>
     getColor pf (example\<lparr>InsideColor := white, Palette := []\<rparr>) fzero = Inr (255, 255, 255)"
proof
  fix pf
  from getColor_sentinel[of pf "example\<lparr>InsideColor := orange\<rparr>"]
  have 1: "getColor pf (example\<lparr>InsideColor := orange\<rparr>) fzero = Inr (255, 128, 0)"
    by (simp add: color_simps)
  from getColor_sentinel[of pf "example\<lparr>InsideColor := orange, Continuous := True\<rparr>"]
  have 2: "getColor pf (example\<lparr>InsideColor := orange, Continuous := True\<rparr>) (Finite True 0) =
      Inr (255, 128, 0)"
    by (simp add: color_simps)
  from getColor_sentinel[of pf "example\<lparr>InsideColor := white, Palette := []\<rparr>"]
  have 3: "getColor pf (example\<lparr>InsideColor := white, Palette := []\<rparr>) fzero = Inr (255, 255, 255)"
    by (simp add: color_simps)
  from 1 2 3 show "getColor pf (example\<lparr>InsideColor := orange\<rparr>) fzero = Inr (255, 128, 0) \<and>
     getColor pf (example\<lparr>InsideColor := orange, Continuous := True\<rparr>) (Finite True 0) =
       Inr (255, 128, 0) \<and>
     getColor pf (example\<lparr>InsideColor := white, Palette := []\<rparr>) fzero = Inr (255, 255, 255)"
    by simp
qed


lemma round_to_int:
  assumes "0 \<le> k" "k < 2 ^ 53"
  shows "round_to s (of_int k) = Finite s (of_int k)"
proof -
  have "(of_int k :: rat) \<le> of_int (2 ^ 63)"
    using assms(2) by (simp only: of_int_le_iff) simp
  then have "(of_int k :: rat) < pow2 1024"
    by (intro pow2_1024_gt) simp
  with rnd_int[OF assms] show ?thesis by (intro round_to_exact)
qed

lemma round_to_numeral:
  "(numeral n :: int) < 2 ^ 53 \<Longrightarrow> round_to s (numeral n) = Finite s (numeral n)"
  using round_to_int[of "numeral n" s] by simp

lemma round_to_0 [simp]: "round_to s 0 = Finite s 0"
  by (simp add: round_to_def not_le)

lemma round_to_1 [simp]: "round_to s 1 = Finite s 1"
  using round_to_int[of 1 s] by simp

lemma round_to_dyadic:
  assumes "0 \<le> k" "k < 2 ^ 53" "j \<le> 1074"
  shows "round_to s (of_int k / 2 ^ j) = Finite s (of_int k / 2 ^ j)"
proof -
  have p: "pow2 (- int j) = 1 / 2 ^ j"
    by (simp add: pow2_powi power_int_minus field_simps)
  have "rnd (of_int k * pow2 (- int j)) = of_int k * pow2 (- int j)"
    using assms by (intro rnd_exact) simp_all
  then have r: "rnd (of_int k / 2 ^ j) = of_int k / 2 ^ j" by (simp add: p)
  have "(of_int k :: rat) \<le> of_int (2 ^ 63)"
    using assms(2) by (simp only: of_int_le_iff) simp
  moreover have "(of_int k :: rat) / 2 ^ j \<le> of_int k"
  proof -
    have "(1::rat) \<le> 2 ^ j" by simp
    then have "(of_int k :: rat) / 2 ^ j \<le> of_int k / 1"
      using assms(1) by (intro divide_left_mono) simp_all
    then show ?thesis by simp
  qed
  ultimately have "(of_int k :: rat) / 2 ^ j < pow2 1024"
    by (intro pow2_1024_gt) simp
  with r show ?thesis by (rule round_to_exact)
qed

lemmas feval = fadd.simps fmul.simps fdiv.simps fsub_def fneg.simps fge.simps feq.simps
  sval_def round_to_numeral fzero_def fone_def fhalf_def ffour_def

theorem getColor_continuous_witness:
  "\<forall>pf. Continuous (example\<lparr>Continuous := True\<rparr>) \<and>
     Palette (example\<lparr>Continuous := True\<rparr>) \<noteq> [] \<and>
     \<not> feq (Finite False (5 / 2)) fzero \<and>
     getColor pf (example\<lparr>Continuous := True\<rparr>) (Finite False (5 / 2)) = Inr (127, 64, 0) \<and>
     (0::rat) \<le> 255 / 2 \<and> (255 / 2 :: rat) < 2 ^ 63 \<and>
     int_of_float64 pf (Finite False (255 / 2)) = 127 \<and>
     int_of_float64 pf (Floor (Finite True (5 / 2))) = - 3"
proof (intro allI)
  fix pf
  define q where "q = example\<lparr>Continuous := True\<rparr>"
  have h: "Continuous q" "Palette q \<noteq> []" "\<not> feq (Finite False (5 / 2)) fzero"
    by (simp_all add: q_def example_simps)
  note t = getColor_continuous[OF h, of pf]
  have fl: "\<lfloor>5 / 2 :: rat\<rfloor> = 2" "\<lfloor>255 / 2 :: rat\<rfloor> = 127" "\<lceil>5 / 2 :: rat\<rceil> = 3"
    "\<lfloor>- (5 / 2) :: rat\<rfloor> = - 3"
    by (rule floor_unique ceiling_unique; simp)+
  have f2: "Floor (Finite False (5 / 2)) = Finite False 2"
    by (simp add: fl)
  have i2: "int_of_float64 pf (Finite False 2) = 2"
    by simp
  have w: "fsub (Finite False (5 / 2)) (Finite False 2) = fhalf"
    using round_to_dyadic[of 1 1 False] by (simp add: feval)
  have c: "uint8_to_float64 255 = Finite False 255" "uint8_to_float64 128 = Finite False 128"
    "uint8_to_float64 0 = fzero"
    using float64_of_int_exact[of 255] float64_of_int_exact[of 128]
    by (simp_all add: uint8_to_float64_def)
  have m: "fsub fone fhalf = fhalf"
    using round_to_dyadic[of 1 1 False] by (simp add: feval)
  have x: "fadd (fmul (Finite False 255) fhalf) (fmul fzero fhalf) = Finite False (255 / 2)"
    "fadd (fmul (Finite False 128) fhalf) (fmul fzero fhalf) = Finite False 64"
    "fadd (fmul fzero fhalf) (fmul fzero fhalf) = fzero"
    using round_to_dyadic[of 255 1 False] by (simp_all add: feval)
  have k: "int_of_float64 pf (Finite False (255 / 2)) = 127" "int_of_float64 pf (Finite False 64) = 64"
    "int_of_float64 pf fzero = 0"
    by (simp_all add: fl fzero_def)
  from t[THEN conjunct1] have "getColor pf q (Finite False (5 / 2)) = Inr (127, 64, 0)"
    unfolding Let_def f2 i2 w
    by (simp add: q_def example_simps white_def orange_def black_def c m x k fl)
  moreover from t[THEN conjunct2, THEN conjunct2, rule_format, of "5 / 2" True]
  have "int_of_float64 pf (Floor (Finite True (5 / 2))) = - 3"
    by (simp add: sval_def fl)
  ultimately show "Continuous (example\<lparr>Continuous := True\<rparr>) \<and>
     Palette (example\<lparr>Continuous := True\<rparr>) \<noteq> [] \<and>
     \<not> feq (Finite False (5 / 2)) fzero \<and>
     getColor pf (example\<lparr>Continuous := True\<rparr>) (Finite False (5 / 2)) = Inr (127, 64, 0) \<and>
     (0::rat) \<le> 255 / 2 \<and> (255 / 2 :: rat) < 2 ^ 63 \<and>
     int_of_float64 pf (Finite False (255 / 2)) = 127 \<and>
     int_of_float64 pf (Floor (Finite True (5 / 2))) = - 3"
    using h k by (simp add: q_def)
qed

lemma is_float64_round_to: "0 \<le> m \<Longrightarrow> is_float64 (round_to s m)"
  by (simp add: round_to_def Let_def rnd_nonneg rnd_idem not_le)

lemma is_float64_zero [simp]: "is_float64 (Finite s 0)"
  by simp

lemma is_float64_fadd [simp]: "is_float64 (fadd u v)"
  by (cases u; cases v) (simp_all add: Let_def is_float64_round_to)

lemma is_float64_fmul: "is_float64 u \<Longrightarrow> is_float64 v \<Longrightarrow> is_float64 (fmul u v)"
  by (cases u; cases v) (simp_all add: is_float64_round_to)

lemma is_float64_of_int [simp]: "is_float64 (float64_of_int k)"
  by (simp add: float64_of_int_def is_float64_round_to)

text \<open>Adding a value to itself is doubling it: \<open>ab + ab\<close> is \<open>2ab\<close>.\<close>

lemma fadd_self: "is_float64 t \<Longrightarrow> fadd t t = fmul ftwo t"
proof (cases t)
  case (Finite s m)
  assume "is_float64 t"
  with Finite have m: "0 \<le> m" by simp
  show ?thesis
  proof (cases "m = 0")
    case True
    with Finite show ?thesis by (simp add: ftwo_def sval_def)
  next
    case False
    with m have "0 < m" by simp
    with Finite show ?thesis by (cases s) (simp_all add: ftwo_def sval_def Let_def)
  qed
qed (simp_all add: ftwo_def)

text \<open>Halving by the product with 0.5 or by the quotient with 2 is the same operation.\<close>

lemma fmul_fhalf: "fmul t fhalf = fdiv t ftwo"
  by (cases t) (simp_all add: fhalf_def ftwo_def)

lemma orbit_0 [simp]: "orbit x y 0 = (x, y)"
  by (simp add: orbit_def)

lemma orbit_Suc: "orbit x y (Suc k) = recurrence x y (orbit x y k)"
  by (simp add: orbit_def)

lemma is_float64_orbit:
  assumes "is_float64 x" "is_float64 y"
  shows "is_float64 (fst (orbit x y k)) \<and> is_float64 (snd (orbit x y k))"
proof (cases k)
  case 0
  with assms show ?thesis by simp
next
  case (Suc j)
  then show ?thesis
    by (simp add: orbit_Suc recurrence_def split: prod.split)
qed

text \<open>One turn of the loop that does not return is one step of the recurrence.\<close>

lemma loop_step:
  assumes "is_float64 x" "is_float64 y" "orbit x y k = (a, b)"
  shows "orbit x y (Suc k) =
    (fadd (fsub (fmul a a) (fmul b b)) x, fadd (fadd (fmul a b) (fmul a b)) y)"
proof -
  have "is_float64 a" "is_float64 b"
    using is_float64_orbit[OF assms(1,2), of k] assms(3) by simp_all
  then have "is_float64 (fmul a b)" by (rule is_float64_fmul)
  then have "fadd (fmul a b) (fmul a b) = fmul ftwo (fmul a b)" by (rule fadd_self)
  then show ?thesis by (simp add: orbit_Suc recurrence_def assms(3))
qed

lemma mandel_loop_sentinel:
  assumes x: "is_float64 x" "is_float64 y"
    and z: "orbit x y k = (a, b)"
    and no: "\<forall>j. k \<le> j \<and> int j < maxIters \<longrightarrow> \<not> fge (norm2 (orbit x y j)) (bailout cont)"
  shows "mandel_loop pf maxIters x y cont a b (int k + 1) = fzero"
  using z no
proof (induction "nat (maxIters - int k)" arbitrary: k a b)
  case 0
  then have "\<not> int k + 1 \<le> maxIters" by simp
  then show ?case by (subst mandel_loop.simps) simp
next
  case (Suc d)
  then have le: "int k + 1 \<le> maxIters" by simp
  from Suc.prems(2) le have ne: "\<not> fge (norm2 (orbit x y k)) (bailout cont)" by simp
  have d: "d = nat (maxIters - int (Suc k))" using Suc.hyps(2) by simp
  note st = loop_step[OF x Suc.prems(1)]
  have no': "\<forall>j. Suc k \<le> j \<and> int j < maxIters \<longrightarrow> \<not> fge (norm2 (orbit x y j)) (bailout cont)"
    using Suc.prems(2) by simp
  from Suc.hyps(1)[OF d st no'] have ih:
    "mandel_loop pf maxIters x y cont (fadd (fsub (fmul a a) (fmul b b)) x)
       (fadd (fadd (fmul a b) (fmul a b)) y) (int k + 1 + 1) = fzero"
    by (simp add: add.commute)
  show ?case
    using le ne ih
    by (subst mandel_loop.simps) (simp add: Let_def norm2_def Suc.prems(1))
qed

lemma mandel_loop_escape:
  assumes x: "is_float64 x" "is_float64 y"
    and z: "orbit x y k = (a, b)"
    and n: "k \<le> n" "int n < maxIters"
    and esc: "fge (norm2 (orbit x y n)) (bailout cont)"
    and no: "\<forall>j. k \<le> j \<and> j < n \<longrightarrow> \<not> fge (norm2 (orbit x y j)) (bailout cont)"
  shows "mandel_loop pf maxIters x y cont a b (int k + 1) =
    (if cont then
       fsub (float64_of_int (int n + 1 + 1))
         (math_Log2 pf (fmul (math_Log2 pf (norm2 (orbit x y n))) fhalf))
     else float64_of_int (int n + 1))"
  using z n(1) no
proof (induction "n - k" arbitrary: k a b)
  case 0
  then have kn: "k = n" by simp
  with n(2) have le: "int k + 1 \<le> maxIters" by simp
  from esc kn 0(2) have e: "fge (fadd (fmul a a) (fmul b b)) (bailout cont)"
    by (simp add: norm2_def)
  show ?case
    using le e kn 0(2)
    by (subst mandel_loop.simps) (simp add: Let_def norm2_def)
next
  case (Suc d)
  then have kn: "k < n" by simp
  with n(2) have le: "int k + 1 \<le> maxIters" by simp
  from Suc.prems(3) kn have ne: "\<not> fge (norm2 (orbit x y k)) (bailout cont)" by simp
  have d: "d = n - Suc k" using Suc.hyps(2) by simp
  note st = loop_step[OF x Suc.prems(1)]
  have no': "\<forall>j. Suc k \<le> j \<and> j < n \<longrightarrow> \<not> fge (norm2 (orbit x y j)) (bailout cont)"
    using Suc.prems(3) by simp
  from Suc.hyps(1)[OF d st _ no'] kn have ih:
    "mandel_loop pf maxIters x y cont (fadd (fsub (fmul a a) (fmul b b)) x)
       (fadd (fadd (fmul a b) (fmul a b)) y) (int k + 1 + 1) =
     (if cont then
        fsub (float64_of_int (int n + 1 + 1))
          (math_Log2 pf (fmul (math_Log2 pf (norm2 (orbit x y n))) fhalf))
      else float64_of_int (int n + 1))"
    by (simp add: add.commute)
  show ?case
    using le ne ih
    by (subst mandel_loop.simps) (simp add: Let_def norm2_def Suc.prems(1))
qed

lemma mandel_first_escape:
  assumes x: "is_float64 x" "is_float64 y"
    and n: "1 \<le> n" "int n \<le> maxIters"
    and esc: "escapes_at cont x y n"
    and no: "\<forall>k. 1 \<le> k \<and> k < n \<longrightarrow> \<not> escapes_at cont x y k"
  shows "mandel pf maxIters x y cont =
    (if cont then
       fsub (float64_of_int (int n + 1))
         (math_Log2 pf (fmul (math_Log2 pf (norm2 (orbit x y (n - 1)))) fhalf))
     else float64_of_int (int n))"
proof -
  have no': "\<forall>j. 0 \<le> j \<and> j < n - 1 \<longrightarrow> \<not> fge (norm2 (orbit x y j)) (bailout cont)"
  proof (intro allI impI)
    fix j assume "0 \<le> j \<and> j < n - 1"
    then have "1 \<le> Suc j \<and> Suc j < n" by simp
    with no have "\<not> escapes_at cont x y (Suc j)" by blast
    then show "\<not> fge (norm2 (orbit x y j)) (bailout cont)" by (simp add: escapes_at_def)
  qed
  have i: "int (n - Suc 0) = int n - 1" using n(1) by simp
  have "mandel_loop pf maxIters x y cont x y (int 0 + 1) =
    (if cont then
       fsub (float64_of_int (int (n - 1) + 1 + 1))
         (math_Log2 pf (fmul (math_Log2 pf (norm2 (orbit x y (n - 1)))) fhalf))
     else float64_of_int (int (n - 1) + 1))"
    using n esc no'
    by (intro mandel_loop_escape[OF x]) (simp_all add: escapes_at_def)
  then show ?thesis by (simp add: mandel_def i)
qed

lemma mandel_no_escape:
  assumes x: "is_float64 x" "is_float64 y"
    and no: "\<forall>k. 1 \<le> k \<and> int k \<le> maxIters \<longrightarrow> \<not> escapes_at cont x y k"
  shows "mandel pf maxIters x y cont = fzero"
proof -
  have no': "\<forall>j. 0 \<le> j \<and> int j < maxIters \<longrightarrow> \<not> fge (norm2 (orbit x y j)) (bailout cont)"
  proof (intro allI impI)
    fix j assume "0 \<le> j \<and> int j < maxIters"
    then have "1 \<le> Suc j \<and> int (Suc j) \<le> maxIters" by simp
    with no have "\<not> escapes_at cont x y (Suc j)" by blast
    then show "\<not> fge (norm2 (orbit x y j)) (bailout cont)" by (simp add: escapes_at_def)
  qed
  have "mandel_loop pf maxIters x y cont x y (int 0 + 1) = fzero"
    using no' by (intro mandel_loop_sentinel[OF x]) simp_all
  then show ?thesis by (simp add: mandel_def)
qed

lemma float64_of_int_2: "float64_of_int 2 = ftwo"
  using float64_of_int_exact[of 2] by (simp add: ftwo_def)

lemma bailout_False [simp]: "bailout False = ffour"
  by (simp add: bailout_def)

lemma bailout_True: "bailout True = Finite False (2 ^ 17)"
  using float64_of_int_exact[of "2 ^ 17"] by (simp add: bailout_def)

text \<open>
  C1.  In discrete mode, for every point \<open>(x, y)\<close> and every \<open>maxIters \<ge> 1\<close>, the evaluator
  follows the recurrence \<open>a' = a\<^sup>2 - b\<^sup>2 + x\<close>, \<open>b' = 2ab + y\<close> from \<open>a = x\<close>, \<open>b = y\<close>
  and returns the number \<open>n\<close> (counted from 1) of the first iteration at which
  \<open>a\<^sup>2 + b\<^sup>2 \<ge> 4\<close>, when that happens within \<open>maxIters\<close> iterations, and the sentinel 0
  when it does not.  It returns 1 when \<open>x\<^sup>2 + y\<^sup>2 \<ge> 4\<close>, and with \<open>maxIters = 1\<close> it
  returns 1 or 0, never 2.
\<close>

theorem mandel_discrete:
  assumes "is_float64 x" and "is_float64 y" and "1 \<le> maxIters"
  shows "bailout False = ffour \<and>
         (\<forall>n. 1 \<le> n \<and> int n \<le> maxIters \<and> escapes_at False x y n \<and>
               (\<forall>k. 1 \<le> k \<and> k < n \<longrightarrow> \<not> escapes_at False x y k) \<longrightarrow>
            mandel pf maxIters x y False = float64_of_int (int n)) \<and>
         ((\<forall>k. 1 \<le> k \<and> int k \<le> maxIters \<longrightarrow> \<not> escapes_at False x y k) \<longrightarrow>
            mandel pf maxIters x y False = fzero) \<and>
         (fge (fadd (fmul x x) (fmul y y)) ffour \<longrightarrow> mandel pf maxIters x y False = fone) \<and>
         (mandel pf 1 x y False = fone \<or> mandel pf 1 x y False = fzero) \<and>
         mandel pf 1 x y False \<noteq> float64_of_int 2"
proof -
  have first: "mandel pf m x y False = fone" if "fge (fadd (fmul x x) (fmul y y)) ffour" "1 \<le> m" for m
    using mandel_first_escape[OF assms(1,2), of 1 m False pf] that
    by (simp add: escapes_at_def norm2_def)
  have one: "mandel pf 1 x y False = fone \<or> mandel pf 1 x y False = fzero"
  proof (cases "fge (fadd (fmul x x) (fmul y y)) ffour")
    case True
    then show ?thesis using first[of 1] by simp
  next
    case False
    have "\<forall>k. 1 \<le> k \<and> int k \<le> 1 \<longrightarrow> \<not> escapes_at False x y k"
    proof (intro allI impI)
      fix k :: nat assume "1 \<le> k \<and> int k \<le> 1"
      then have "k = 1" by simp
      with False show "\<not> escapes_at False x y k" by (simp add: escapes_at_def norm2_def)
    qed
    then show ?thesis using mandel_no_escape[OF assms(1,2)] by blast
  qed
  have "fone \<noteq> float64_of_int 2" "fzero \<noteq> float64_of_int 2"
    by (simp_all add: float64_of_int_2 ftwo_def fone_def fzero_def)
  with one have two: "mandel pf 1 x y False \<noteq> float64_of_int 2" by auto
  show ?thesis
    using mandel_first_escape[OF assms(1,2), where cont = False and pf = pf and maxIters = maxIters]
      mandel_no_escape[OF assms(1,2), where cont = False and pf = pf and maxIters = maxIters]
      first[OF _ assms(3)] one two
    by (intro conjI allI impI) (simp_all del: One_nat_def)
qed

text \<open>
  C2, as amended.  In continuous mode the bailout is \<open>2 << 16\<close>, which is \<open>2 ^ 17 = 131072\<close>.
  At the first iteration \<open>n\<close> within \<open>maxIters\<close> whose \<open>|z|\<^sup>2 = a\<^sup>2 + b\<^sup>2\<close> reaches it, the
  evaluator returns \<open>float64(n + 1) - math.Log2(math.Log2(|z|\<^sup>2) / 2)\<close>; when there is none
  it returns the sentinel 0.
\<close>

theorem mandel_continuous:
  assumes "is_float64 x" and "is_float64 y" and "1 \<le> maxIters"
  shows "bailout True = Finite False (2 ^ 17) \<and>
         (\<forall>n. 1 \<le> n \<and> int n \<le> maxIters \<and> escapes_at True x y n \<and>
               (\<forall>k. 1 \<le> k \<and> k < n \<longrightarrow> \<not> escapes_at True x y k) \<longrightarrow>
            mandel pf maxIters x y True =
              fsub (float64_of_int (int n + 1))
                (math_Log2 pf (fdiv (math_Log2 pf (norm2 (orbit x y (n - 1)))) ftwo))) \<and>
         ((\<forall>k. 1 \<le> k \<and> int k \<le> maxIters \<longrightarrow> \<not> escapes_at True x y k) \<longrightarrow>
            mandel pf maxIters x y True = fzero)"
  using mandel_first_escape[OF assms(1,2), where cont = True and pf = pf and maxIters = maxIters]
    mandel_no_escape[OF assms(1,2), where cont = True and pf = pf and maxIters = maxIters]
  by (intro conjI allI impI) (simp_all add: bailout_True fmul_fhalf del: One_nat_def)


lemma is_float64_int:
  assumes "0 \<le> k" "k < 2 ^ 53"
  shows "is_float64 (Finite s (of_int k))"
proof -
  have "(of_int k :: rat) \<le> of_int (2 ^ 63)"
    using assms(2) by (simp only: of_int_le_iff) simp
  then have "(of_int k :: rat) < pow2 1024"
    by (intro pow2_1024_gt) simp
  with rnd_int[OF assms] assms(1) show ?thesis by simp
qed

lemma is_float64_numeral: "(numeral n :: int) < 2 ^ 53 \<Longrightarrow> is_float64 (Finite s (numeral n))"
  using is_float64_int[of "numeral n" s] by simp

lemma is_float64_consts [simp]: "is_float64 fzero" "is_float64 fone" "is_float64 ftwo"
  using is_float64_int[of 1 False] is_float64_int[of 2 False]
  by (simp_all add: fzero_def fone_def ftwo_def)

lemmas orbit_1 = orbit_Suc[of _ _ 0, simplified]

theorem mandel_discrete_witness:
  "\<forall>pf. is_float64 fone \<and> is_float64 fzero \<and> is_float64 ftwo \<and> (1::int) \<le> 50 \<and>
     (1::nat) \<le> 2 \<and> int 2 \<le> 50 \<and>
     \<not> escapes_at False fone fone 1 \<and> escapes_at False fone fone 2 \<and>
     mandel pf 50 fone fone False = float64_of_int 2 \<and>
     \<not> escapes_at False fzero fzero 1 \<and> \<not> escapes_at False fzero fzero 2 \<and>
     mandel pf 2 fzero fzero False = fzero \<and>
     fge (fadd (fmul ftwo ftwo) (fmul fzero fzero)) ffour \<and>
     mandel pf 50 ftwo fzero False = fone \<and>
     mandel pf 1 fone fone False = fzero"
proof (intro allI)
  fix pf
  have o1: "orbit (Finite False 1) (Finite False 1) (Suc 0) = (Finite False 1, Finite False 3)"
    by (simp add: orbit_1 recurrence_def feval ftwo_def)
  have e1: "\<not> escapes_at False fone fone 1"
    by (simp add: escapes_at_def norm2_def feval)
  have e2: "escapes_at False fone fone 2"
    by (simp add: escapes_at_def norm2_def o1 feval)
  have z1: "orbit (Finite False 0) (Finite False 0) (Suc 0) = (Finite False 0, Finite False 0)"
    by (simp add: orbit_1 recurrence_def feval ftwo_def)
  have n1: "\<not> escapes_at False fzero fzero 1"
    by (simp add: escapes_at_def norm2_def feval)
  have n2: "\<not> escapes_at False fzero fzero 2"
    by (simp add: escapes_at_def norm2_def z1 feval)
  have g: "fge (fadd (fmul ftwo ftwo) (fmul fzero fzero)) ffour"
    by (simp add: feval ftwo_def)
  have b1: "\<forall>k::nat. 1 \<le> k \<and> k < 2 \<longrightarrow> \<not> escapes_at False fone fone k"
  proof (intro allI impI)
    fix k :: nat assume "1 \<le> k \<and> k < 2"
    then have "k = 1" by simp
    with e1 show "\<not> escapes_at False fone fone k" by simp
  qed
  have b2: "\<forall>k::nat. 1 \<le> k \<and> int k \<le> 2 \<longrightarrow> \<not> escapes_at False fzero fzero k"
  proof (intro allI impI)
    fix k :: nat assume "1 \<le> k \<and> int k \<le> 2"
    then have "k = 1 \<or> k = 2" by auto
    with n1 n2 show "\<not> escapes_at False fzero fzero k" by auto
  qed
  have b3: "\<forall>k::nat. 1 \<le> k \<and> int k \<le> 1 \<longrightarrow> \<not> escapes_at False fone fone k"
  proof (intro allI impI)
    fix k :: nat assume "1 \<le> k \<and> int k \<le> 1"
    then have "k = 1" by simp
    with e1 show "\<not> escapes_at False fone fone k" by simp
  qed
  have i: "is_float64 fone" "is_float64 fzero" "is_float64 ftwo" by simp_all
  have "1 \<le> (2::nat) \<and> int 2 \<le> 50 \<and> escapes_at False fone fone 2 \<and>
      (\<forall>k::nat. 1 \<le> k \<and> k < 2 \<longrightarrow> \<not> escapes_at False fone fone k)"
    using e2 b1 by simp
  then have r1: "mandel pf 50 fone fone False = float64_of_int 2"
    using mandel_discrete[OF i(1) i(1), of 50 pf, THEN conjunct2, THEN conjunct1, rule_format, of 2]
    by simp
  have r2: "mandel pf 2 fzero fzero False = fzero"
    using mandel_discrete[OF i(2) i(2), of 2 pf] b2 by simp
  have r3: "mandel pf 50 ftwo fzero False = fone"
    using mandel_discrete[OF i(3) i(2), of 50 pf] g by simp
  have r4: "mandel pf 1 fone fone False = fzero"
    using mandel_discrete[OF i(1) i(1), of 1 pf] b3 by simp
  from i e1 e2 n1 n2 g r1 r2 r3 r4
  show "is_float64 fone \<and> is_float64 fzero \<and> is_float64 ftwo \<and> (1::int) \<le> 50 \<and>
     (1::nat) \<le> 2 \<and> int 2 \<le> 50 \<and>
     \<not> escapes_at False fone fone 1 \<and> escapes_at False fone fone 2 \<and>
     mandel pf 50 fone fone False = float64_of_int 2 \<and>
     \<not> escapes_at False fzero fzero 1 \<and> \<not> escapes_at False fzero fzero 2 \<and>
     mandel pf 2 fzero fzero False = fzero \<and>
     fge (fadd (fmul ftwo ftwo) (fmul fzero fzero)) ffour \<and>
     mandel pf 50 ftwo fzero False = fone \<and>
     mandel pf 1 fone fone False = fzero"
    by simp
qed

theorem mandel_continuous_witness:
  "\<forall>pf. is_float64 (Finite False 512) \<and> is_float64 fzero \<and> (1::int) \<le> 50 \<and>
     escapes_at True (Finite False 512) fzero 1 \<and>
     mandel pf 50 (Finite False 512) fzero True =
       fsub ftwo (math_Log2 pf (fdiv (math_Log2 pf (Finite False 262144)) ftwo)) \<and>
     \<not> escapes_at True fzero fzero 1 \<and>
     mandel pf 1 fzero fzero True = fzero"
proof (intro allI)
  fix pf
  have i: "is_float64 (Finite False 512)" "is_float64 fzero"
    using is_float64_int[of 512 False] by simp_all
  have nm: "norm2 (Finite False 512, Finite False 0) = Finite False 262144"
    by (simp add: norm2_def feval)
  have e: "escapes_at True (Finite False 512) fzero 1"
    by (simp add: escapes_at_def nm bailout_True feval)
  have n1: "\<not> escapes_at True fzero fzero 1"
    by (simp add: escapes_at_def norm2_def bailout_True) (simp add: feval)
  have b: "\<forall>k::nat. 1 \<le> k \<and> int k \<le> 1 \<longrightarrow> \<not> escapes_at True fzero fzero k"
  proof (intro allI impI)
    fix k :: nat assume "1 \<le> k \<and> int k \<le> 1"
    then have "k = 1" by simp
    with n1 show "\<not> escapes_at True fzero fzero k" by simp
  qed
  note t = mandel_continuous[OF i, of 50 pf, THEN conjunct2, THEN conjunct1, rule_format, of 1]
  have r1: "mandel pf 50 (Finite False 512) fzero True =
      fsub ftwo (math_Log2 pf (fdiv (math_Log2 pf (Finite False 262144)) ftwo))"
    using t e by (simp add: nm float64_of_int_2 fzero_def)
  have r2: "mandel pf 1 fzero fzero True = fzero"
    using mandel_continuous[OF i(2) i(2), of 1 pf] b by simp
  from i e n1 r1 r2
  show "is_float64 (Finite False 512) \<and> is_float64 fzero \<and> (1::int) \<le> 50 \<and>
     escapes_at True (Finite False 512) fzero 1 \<and>
     mandel pf 50 (Finite False 512) fzero True =
       fsub ftwo (math_Log2 pf (fdiv (math_Log2 pf (Finite False 262144)) ftwo)) \<and>
     \<not> escapes_at True fzero fzero 1 \<and>
     mandel pf 1 fzero fzero True = fzero"
    by simp
qed

text \<open>
  C2 as it is stated fails: the bailout of the continuous mode is not \<open>2 ^ 16\<close>.  At the
  point \<open>256 + 0i\<close> the first iteration has \<open>|z|\<^sup>2 = 2 ^ 16\<close>, which reaches \<open>2 ^ 16\<close> but
  not the bailout of the code, and with one iteration allowed the evaluator returns the
  sentinel 0, not the value \<open>2 - log2(log2(2 ^ 16) / 2)\<close> of an escape at iteration 1.
\<close>

theorem mandel_bailout_counterexample:
  "bailout True \<noteq> float64_of_int (2 ^ 16) \<and>
   norm2 (orbit (Finite False 256) fzero 0) = float64_of_int (2 ^ 16) \<and>
   fge (norm2 (orbit (Finite False 256) fzero 0)) (float64_of_int (2 ^ 16)) \<and>
   \<not> escapes_at True (Finite False 256) fzero 1 \<and>
   mandel example_platform 1 (Finite False 256) fzero True = fzero"
proof -
  have f: "float64_of_int (2 ^ 16) = Finite False (2 ^ 16)"
    using float64_of_int_exact[of "2 ^ 16"] by simp
  have nm: "norm2 (Finite False 256, Finite False 0) = Finite False 65536"
    by (simp add: norm2_def feval)
  have n1: "\<not> escapes_at True (Finite False 256) fzero 1"
    by (simp add: escapes_at_def nm bailout_True feval)
  have b: "\<forall>k::nat. 1 \<le> k \<and> int k \<le> 1 \<longrightarrow> \<not> escapes_at True (Finite False 256) fzero k"
  proof (intro allI impI)
    fix k :: nat assume "1 \<le> k \<and> int k \<le> 1"
    then have "k = 1" by simp
    with n1 show "\<not> escapes_at True (Finite False 256) fzero k" by simp
  qed
  have i: "is_float64 (Finite False 256)" "is_float64 fzero"
    using is_float64_int[of 256 False] by simp_all
  have r: "mandel example_platform 1 (Finite False 256) fzero True = fzero"
    using mandel_no_escape[OF i b] .
  show ?thesis
    using n1 r f by (simp add: nm bailout_True feval)
qed

text \<open>The discrete evaluator returns the sentinel or the number of one of its iterations.\<close>

lemma mandel_loop_discrete_range:
  "mandel_loop pf maxIters x y False a b i = fzero \<or>
   (\<exists>n. i \<le> n \<and> n \<le> maxIters \<and> mandel_loop pf maxIters x y False a b i = float64_of_int n)"
proof (induction pf maxIters x y "False" a b i rule: mandel_loop.induct)
  case (1 pf maxIters x y a b iters)
  show ?case
  proof (cases "iters \<le> maxIters")
    case False
    then show ?thesis by (subst mandel_loop.simps) simp
  next
    case le: True
    show ?thesis
    proof (cases "fge (fadd (fmul a a) (fmul b b)) (bailout False)")
      case True
      with le have "mandel_loop pf maxIters x y False a b iters = float64_of_int iters"
        by (subst mandel_loop.simps) (simp add: Let_def)
      with le show ?thesis by auto
    next
      case False
      let ?a = "fadd (fsub (fmul a a) (fmul b b)) x" and ?b = "fadd (fadd (fmul a b) (fmul a b)) y"
      have eq: "mandel_loop pf maxIters x y False a b iters =
          mandel_loop pf maxIters x y False ?a ?b (iters + 1)"
        using le False by (subst mandel_loop.simps) (simp add: Let_def)
      from 1[OF le refl refl False refl]
      have "mandel_loop pf maxIters x y False ?a ?b (iters + 1) = fzero \<or>
        (\<exists>n. iters + 1 \<le> n \<and> n \<le> maxIters \<and>
           mandel_loop pf maxIters x y False ?a ?b (iters + 1) = float64_of_int n)" .
      then show ?thesis
      proof
        assume "mandel_loop pf maxIters x y False ?a ?b (iters + 1) = fzero"
        then show ?thesis unfolding eq by simp
      next
        assume "\<exists>n. iters + 1 \<le> n \<and> n \<le> maxIters \<and>
           mandel_loop pf maxIters x y False ?a ?b (iters + 1) = float64_of_int n"
        then obtain n where "iters + 1 \<le> n" "n \<le> maxIters"
          "mandel_loop pf maxIters x y False ?a ?b (iters + 1) = float64_of_int n" by blast
        then have "iters \<le> n \<and> n \<le> maxIters \<and>
          mandel_loop pf maxIters x y False ?a ?b (iters + 1) = float64_of_int n" by simp
        then show ?thesis unfolding eq by blast
      qed
    qed
  qed
qed

lemma mandel_discrete_range:
  "mandel pf maxIters x y False = fzero \<or>
   (\<exists>n. 1 \<le> n \<and> n \<le> maxIters \<and> mandel pf maxIters x y False = float64_of_int n)"
  unfolding mandel_def by (rule mandel_loop_discrete_range)

lemma palette_at_ok:
  assumes "Palette p \<noteq> []" "0 \<le> k"
  shows "\<exists>c. palette_at p k = Inr c \<and> c \<in> set (Palette p)"
proof -
  have "nat (k mod int (length (Palette p))) < length (Palette p)"
    using assms by (simp add: nat_less_iff)
  then show ?thesis using palette_at_nonneg[OF assms] by simp
qed

lemma getColor_continuous_ok:
  assumes "Continuous p" "Palette p \<noteq> []"
  shows "\<exists>c. getColor pf p iters = Inr c"
proof (cases "feq iters fzero")
  case True
  then have "getColor pf p iters = Inr (rgb_of (InsideColor p))" by (simp add: getColor_def)
  then show ?thesis by (rule exI)
next
  case False
  with assms show ?thesis
    by (cases "int_of_float64 pf (Floor iters) < 1")
      (simp_all add: getColor_def Let_def blend_def palette_at_nonneg)
qed

lemma rgb_of_range:
  "rgb_of c = (r, g, b) \<Longrightarrow> 0 \<le> r \<and> r < 256 \<and> 0 \<le> g \<and> g < 256 \<and> 0 \<le> b \<and> b < 256"
  using uint_bounded[of "cR c"] uint_bounded[of "cG c"] uint_bounded[of "cB c"]
  by (auto simp: rgb_of_def)

text \<open>
  The count \<open>float64(n)\<close> of an iteration is a whole number inside the range of \<open>int\<close> as
  long as \<open>n\<close> is at most \<open>2 ^ 63 - 1024\<close>, the largest \<open>float64\<close> below \<open>2 ^ 63\<close>: the
  greater counts round to \<open>2 ^ 63\<close>, which \<open>int\<close> cannot hold.
\<close>

lemma float64_of_int_below:
  assumes "1 \<le> n" "n \<le> 2 ^ 63 - 1024"
  shows "\<exists>m. float64_of_int n = Finite False m \<and> 1 \<le> m \<and> m < 2 ^ 63"
proof -
  have "rnd (of_int 1) = of_int 1" by (rule rnd_int) simp_all
  then have lo: "rnd 1 = 1" by simp
  have "rnd (of_int (2 ^ 53 - 1) * pow2 10) = of_int (2 ^ 53 - 1) * pow2 10"
    by (intro rnd_exact) simp_all
  then have hi: "rnd (2 ^ 63 - 1024) = 2 ^ 63 - 1024" by (simp add: pow2_nat)
  have "(of_int 1 :: rat) \<le> of_int n" using assms(1) by (simp only: of_int_le_iff)
  then have n1: "(1::rat) \<le> of_int n" by simp
  have "(of_int n :: rat) \<le> of_int (2 ^ 63 - 1024)"
    using assms(2) by (simp only: of_int_le_iff)
  then have n2: "(of_int n :: rat) \<le> 2 ^ 63 - 1024" by simp
  have "rnd 1 \<le> rnd (of_int n)" using n1 by (intro rnd_mono) simp_all
  then have r1: "1 \<le> rnd (of_int n)" by (simp only: lo)
  have "rnd (of_int n) \<le> rnd (2 ^ 63 - 1024)" using n1 n2 by (intro rnd_mono) simp_all
  then have r2: "rnd (of_int n) \<le> 2 ^ 63 - 1024" by (simp only: hi)
  then have "rnd (of_int n) \<le> 2 ^ 63" by simp
  then have "rnd (of_int n) < pow2 1024" by (rule pow2_1024_gt)
  then have "round_to False (of_int n) = Finite False (rnd (of_int n))"
    by (simp add: round_to_def)
  moreover have "float64_of_int n = round_to False (of_int n)"
    using assms(1) by (simp add: float64_of_int_def)
  moreover from r2 have "rnd (of_int n) < 2 ^ 63" by simp
  ultimately show ?thesis using r1 by simp
qed

text \<open>In discrete mode a sample is the inside color or a color of the palette.\<close>

lemma getColor_mandel_discrete:
  assumes "\<not> Continuous p" "Palette p \<noteq> []" "maxIters \<le> 2 ^ 63 - 1024"
  shows "\<exists>c. (c = InsideColor p \<or> c \<in> set (Palette p)) \<and>
             getColor pf p (mandel pf maxIters x y False) = Inr (rgb_of c)"
proof -
  from mandel_discrete_range[of pf maxIters x y]
  consider "mandel pf maxIters x y False = fzero"
    | n where "1 \<le> n" "n \<le> maxIters" "mandel pf maxIters x y False = float64_of_int n"
    by blast
  then show ?thesis
  proof cases
    case 1
    then have "getColor pf p (mandel pf maxIters x y False) = Inr (rgb_of (InsideColor p))"
      by (simp add: getColor_def fzero_def sval_def)
    then show ?thesis by blast
  next
    case 2
    then have "n \<le> 2 ^ 63 - 1024" using assms(3) by simp
    from float64_of_int_below[OF 2(1) this] obtain m
      where m: "float64_of_int n = Finite False m" "1 \<le> m" "m < 2 ^ 63"
      by blast
    then have i: "int_of_float64 pf (Finite False m) = \<lfloor>m\<rfloor>"
      by (intro int_of_float64_nonneg) simp_all
    have f: "0 \<le> \<lfloor>m\<rfloor>" using m(2) by simp
    have "nat (\<lfloor>m\<rfloor> mod int (length (Palette p))) < length (Palette p)"
      using assms(2) by (simp add: nat_less_iff)
    then have "Palette p ! nat (\<lfloor>m\<rfloor> mod int (length (Palette p))) \<in> set (Palette p)"
      by simp
    moreover have "getColor pf p (Finite False m) =
        Inr (rgb_of (Palette p ! nat (\<lfloor>m\<rfloor> mod int (length (Palette p)))))"
      using assms(1,2) m(2,3) f by (simp add: getColor_def i palette_at_nonneg)
    ultimately show ?thesis unfolding 2(3) m(1) by blast
  qed
qed

lemma sample_ok:
  assumes "Palette p \<noteq> []" "MaxIterations p \<le> 2 ^ 63 - 1024"
  shows "\<exists>c. sample pf p minsize col row yo xo = Inr c"
proof (cases "Continuous p")
  case True
  then show ?thesis
    unfolding sample_def Let_def by (intro getColor_continuous_ok[OF True assms(1)])
next
  case False
  obtain c where "getColor pf p (mandel pf (MaxIterations p) (plane_x p minsize col xo)
      (plane_y p minsize row yo) False) = Inr (rgb_of c)"
    using getColor_mandel_discrete[OF False assms, of pf] by blast
  then show ?thesis
    unfolding sample_def Let_def using False by (intro exI[of _ "rgb_of c"]) simp
qed

lemma Init_loop_eq:
  assumes "length xs = nat n" "0 \<le> i"
  shows "Init_loop n i xs = take (nat i) xs @ map (offset n) [i..n - 1]"
  using assms
proof (induction n i xs rule: Init_loop.induct)
  case (1 n i xs)
  show ?case
  proof (cases "i < n")
    case False
    with 1(2,3) show ?thesis by (subst Init_loop.simps) simp
  next
    case True
    have len: "length (xs[nat i := offset n i]) = nat n" using 1(2) by simp
    have lt: "nat i < length xs" using True 1(2,3) by simp
    have "Init_loop n i xs = Init_loop n (i + 1) (xs[nat i := offset n i])"
      using True by (subst Init_loop.simps) simp
    also have "\<dots> = take (nat (i + 1)) (xs[nat i := offset n i]) @ map (offset n) [i + 1..n - 1]"
      using 1(1)[OF True len] 1(3) by simp
    also have "nat (i + 1) = Suc (nat i)" using 1(3) by simp
    also have "take (Suc (nat i)) (xs[nat i := offset n i]) = take (nat i) xs @ [offset n i]"
      using lt by (simp add: take_Suc_conv_app_nth)
    also have "(take (nat i) xs @ [offset n i]) @ map (offset n) [i + 1..n - 1] =
        take (nat i) xs @ map (offset n) [i..n - 1]"
      using True by (simp add: upto_rec1[of i "n - 1"])
    finally show ?thesis .
  qed
qed

lemma Init_offsets:
  assumes "Init pf p0 = Inr (p, None)"
  shows "1 \<le> AntiAlias p \<and> Palette p \<noteq> [] \<and>
         subpixOffsets p = map (offset (AntiAlias p)) [0..AntiAlias p - 1] \<and>
         p = p0\<lparr>subpixOffsets := subpixOffsets p\<rparr> \<and> AntiAlias p \<le> 2 ^ 45"
proof -
  have aa: "\<not> AntiAlias p0 < 1"
    using assms by (auto simp: Init_def)
  have ms: "makeslice pf 8 (AntiAlias p0) = None"
    using assms aa by (auto simp: Init_def split: option.splits)
  then have le: "AntiAlias p0 \<le> 2 ^ 45"
    by (auto simp: makeslice_def maxAlloc_def split: if_splits)
  have "Init_loop (AntiAlias p0) 0 (replicate (nat (AntiAlias p0)) fzero) =
      map (offset (AntiAlias p0)) [0..AntiAlias p0 - 1]"
    by (subst Init_loop_eq) simp_all
  with assms aa ms le show ?thesis
    by (auto simp: Init_def Let_def split: if_splits)
qed

lemma wrap64_id: "- (2 ^ 63) \<le> v \<Longrightarrow> v < 2 ^ 63 \<Longrightarrow> wrap64 v = v"
  by (simp add: wrap64_def)


lemma wrap64_wrap64_add: "wrap64 (wrap64 a + b) = wrap64 (a + b)"
proof -
  have e1: "wrap64 a + b + 2 ^ 63 = (a + 2 ^ 63) mod 2 ^ 64 + b"
    by (simp add: wrap64_def)
  have e2: "((a + 2 ^ 63) mod 2 ^ 64 + b) mod 2 ^ 64 = (a + 2 ^ 63 + b) mod 2 ^ 64"
    by (rule mod_add_left_eq)
  have e3: "a + 2 ^ 63 + b = a + b + 2 ^ 63"
    by simp
  show ?thesis
    unfolding wrap64_def[of "wrap64 a + b"] wrap64_def[of "a + b"] e1 e2 e3 by (rule refl)
qed

lemma wrap64_0 [simp]: "wrap64 0 = 0"
  by (simp add: wrap64_def)


lemma go_quot_1 [simp]: "go_quot a 1 = a"
  by (simp add: go_quot_def sgn_mult_abs)

lemma foldl_accumulate:
  "foldl accumulate (wrap64 r, wrap64 g, wrap64 b) cs =
     (wrap64 (r + sum_list (map fst cs)),
      wrap64 (g + sum_list (map (fst \<circ> snd) cs)),
      wrap64 (b + sum_list (map (snd \<circ> snd) cs)))"
proof (induction cs arbitrary: r g b)
  case Nil
  then show ?case by simp
next
  case (Cons c cs)
  obtain rs gs bs where c: "c = (rs, gs, bs)" by (cases c) auto
  have "accumulate (wrap64 r, wrap64 g, wrap64 b) c =
      (wrap64 (r + rs), wrap64 (g + gs), wrap64 (b + bs))"
    by (simp add: accumulate_def c wrap64_wrap64_add)
  then show ?case
    using Cons.IH[of "r + rs" "g + gs" "b + bs"] by (simp add: c add.assoc)
qed

lemma inner_loop_ok:
  assumes "list_all2 (\<lambda>xo c. sample pf p minsize col row yo xo = Inr c) xs cs"
  shows "inner_loop pf p minsize col row yo xs acc = Inr (foldl accumulate acc cs)"
  using assms by (induction xs cs arbitrary: acc rule: list_all2_induct) simp_all

lemma outer_loop_ok:
  assumes "list_all2 (\<lambda>yo cs. list_all2 (\<lambda>xo c. sample pf p minsize col row yo xo = Inr c)
                                  (subpixOffsets p) cs) ys css"
  shows "outer_loop pf p minsize col row ys acc = Inr (foldl accumulate acc (concat css))"
  using assms
  by (induction ys css arbitrary: acc rule: list_all2_induct) (simp_all add: inner_loop_ok)

lemma CalcPixel_sums:
  assumes len: "int (length (subpixOffsets p)) = AntiAlias p"
    and pal: "Palette p \<noteq> []" and it: "MaxIterations p \<le> 2 ^ 63 - 1024" and aa: "AntiAlias p \<noteq> 0"
  defines "minsize \<equiv> min (SizeX p) (SizeY p)"
  shows "\<exists>cs. length cs = nat (AntiAlias p * AntiAlias p) \<and>
      list_all2 (\<lambda>(yo, xo) c. sample pf p minsize col row yo xo = Inr c)
        (List.product (subpixOffsets p) (subpixOffsets p)) cs \<and>
      CalcPixel pf p col row =
        Inr \<lparr>cR = word_of_int (go_quot (wrap64 (sum_list (map fst cs))) (AntiAlias p * AntiAlias p)),
             cG = word_of_int (go_quot (wrap64 (sum_list (map (fst \<circ> snd) cs))) (AntiAlias p * AntiAlias p)),
             cB = word_of_int (go_quot (wrap64 (sum_list (map (snd \<circ> snd) cs))) (AntiAlias p * AntiAlias p)),
             cA = 255\<rparr>"
proof -
  define val where "val yo xo = projr (sample pf p minsize col row yo xo)" for yo xo
  have val: "sample pf p minsize col row yo xo = Inr (val yo xo)" for yo xo
    using sample_ok[OF pal it, of pf minsize col row yo xo] by (auto simp: val_def)
  define offs where "offs = subpixOffsets p"
  define css where "css = map (\<lambda>yo. map (val yo) offs) offs"
  define cs where "cs = concat css"
  have inner: "list_all2 (\<lambda>xo c. sample pf p minsize col row yo xo = Inr c) xs (map (val yo) xs)"
    for yo xs
    by (simp add: list_all2_conv_all_nth val)
  have outer: "list_all2 (\<lambda>yo cs. list_all2 (\<lambda>xo c. sample pf p minsize col row yo xo = Inr c)
      (subpixOffsets p) cs) ys (map (\<lambda>yo. map (val yo) offs) ys)" for ys
    by (simp add: list_all2_conv_all_nth val offs_def)
  have ol: "outer_loop pf p minsize col row offs (0, 0, 0) = Inr (foldl accumulate (0, 0, 0) cs)"
    unfolding cs_def css_def by (rule outer_loop_ok[OF outer])
  have "foldl accumulate (wrap64 0, wrap64 0, wrap64 0) cs =
      (wrap64 (0 + sum_list (map fst cs)), wrap64 (0 + sum_list (map (fst \<circ> snd) cs)),
       wrap64 (0 + sum_list (map (snd \<circ> snd) cs)))"
    by (rule foldl_accumulate)
  then have fa: "foldl accumulate (0, 0, 0) cs =
      (wrap64 (sum_list (map fst cs)), wrap64 (sum_list (map (fst \<circ> snd) cs)),
       wrap64 (sum_list (map (snd \<circ> snd) cs)))"
    by simp
  have ms: "(if SizeY p < SizeX p then SizeY p else SizeX p) = minsize"
    by (simp add: minsize_def min_def)
  have cp: "CalcPixel pf p col row =
        Inr \<lparr>cR = word_of_int (go_quot (wrap64 (sum_list (map fst cs))) (AntiAlias p * AntiAlias p)),
             cG = word_of_int (go_quot (wrap64 (sum_list (map (fst \<circ> snd) cs))) (AntiAlias p * AntiAlias p)),
             cB = word_of_int (go_quot (wrap64 (sum_list (map (snd \<circ> snd) cs))) (AntiAlias p * AntiAlias p)),
             cA = 255\<rparr>"
    using len aa ol fa by (simp add: CalcPixel_def ms offs_def Let_def)
  have "length cs = length offs * length offs"
    by (simp add: cs_def css_def length_concat comp_def sum_list_triv)
  then have l: "length cs = nat (AntiAlias p * AntiAlias p)"
    using len by (simp add: offs_def nat_mult_distrib flip: len)
  have pr: "cs = map (\<lambda>(yo, xo). val yo xo) (List.product offs offs)"
    by (simp add: cs_def css_def List.product_concat_map map_concat comp_def)
  have la: "list_all2 (\<lambda>(yo, xo) c. sample pf p minsize col row yo xo = Inr c)
        (List.product (subpixOffsets p) (subpixOffsets p)) cs"
    unfolding pr offs_def by (simp add: list_all2_conv_all_nth val split: prod.split)
  from l la cp show ?thesis by blast
qed

lemma offset_1_0: "offset 1 0 = fzero"
  using round_to_dyadic[of 1 1 False] by (simp add: offset_def feval)


text \<open>
  Outside the image the differences wrap around as they do in Go.  At column \<open>- 2 ^ 63\<close> of
  the example, 4 pixels wide, \<open>col - p.SizeX/2\<close> is \<open>2 ^ 63 - 2\<close>, which \<open>float64\<close> rounds to
  \<open>2 ^ 63\<close>; with the center 0 and the magnification \<open>2 ^ 63\<close> the sample lies at \<open>+ 0.5\<close>.
\<close>

lemma rnd_edge: "rnd (9223372036854775806) = 9223372036854775808"
  by code_simp

lemma float64_of_int_edge: "float64_of_int (2 ^ 63 - 2) = Finite False (2 ^ 63)"
proof -
  have "(2::rat) ^ 63 < pow2 1024" by (rule pow2_1024_gt) simp
  then show ?thesis
    using rnd_edge by (simp add: float64_of_int_def round_to_def not_le)
qed

lemma round_to_pow2:
  assumes "0 \<le> e" "e < 1024"
  shows "round_to s (2 ^ nat e) = Finite s (2 ^ nat e)"
proof -
  have "rnd (of_int 1 * pow2 e) = of_int 1 * pow2 e"
    using assms by (intro rnd_exact) simp_all
  then have r: "rnd (2 ^ nat e) = 2 ^ nat e" using assms by (simp add: pow2_nat)
  have "(2::rat) ^ nat e < 2 ^ 1024"
    using assms by (intro power_strict_increasing) simp_all
  then have "(2::rat) ^ nat e < pow2 1024" by (simp add: pow2_nat)
  with r show ?thesis by (rule round_to_exact)
qed

lemma plane_x_wraps:
  "plane_x (example\<lparr>CenterX := fzero, Magnification := Finite False (2 ^ 63)\<rparr>) 3 (- (2 ^ 63)) fzero =
     Finite False (1 / 2)"
proof -
  have w: "wrap64 (- (2 ^ 63) - 2) = 2 ^ 63 - 2" by (simp add: wrap64_def)
  have n: "fadd (Finite False (2 ^ 63)) fzero = Finite False (2 ^ 63)"
    using round_to_pow2[of 63 False] by (simp add: feval)
  have d: "fmul (Finite False (2 ^ 63)) (float64_of_int 2) = Finite False (2 ^ 64)"
    using round_to_pow2[of 64 False] float64_of_int_exact[of 2] by (simp add: feval)
  have q: "fdiv (Finite False (2 ^ 63)) (Finite False (2 ^ 64)) = Finite False (1 / 2)"
    using round_to_dyadic[of 1 1 False] by (simp add: feval)
  have x: "fadd fzero (Finite False (1 / 2)) = Finite False (1 / 2)"
    using round_to_dyadic[of 1 1 False] by (simp add: feval)
  have "plane_x (example\<lparr>CenterX := fzero, Magnification := Finite False (2 ^ 63)\<rparr>) 3 (- (2 ^ 63)) fzero =
      fadd fzero (fdiv (fadd (float64_of_int (wrap64 (- (2 ^ 63) - 2))) fzero)
        (fmul (Finite False (2 ^ 63)) (float64_of_int 2)))"
    by (simp add: plane_x_def example_simps go_quot_def wrap64_def)
  then show ?thesis
    unfolding w float64_of_int_edge n d q x .
qed



lemma roomy_simps [simp]:
  "out_of_memory (roomy pf) n = False" "math_Log2 (roomy pf) = math_Log2 pf"
  "int_of_unrepresentable (roomy pf) = int_of_unrepresentable pf"
  "hchanSize (roomy pf) = 104" "roomy example_platform = example_platform"
  by (simp_all add: roomy_def example_platform_def)

lemma Init_ok:
  assumes "1 \<le> AntiAlias p0" "AntiAlias p0 \<le> 2 ^ 45" "Palette p0 \<noteq> []"
  shows "Init (roomy pf) p0 = Inr (ready p0, None)"
  using assms
  by (simp add: Init_def ready_def makeslice_def maxAlloc_def example_platform_def Let_def)

lemma Init_fields:
  "MaxIterations (ready p0) = MaxIterations p0" "AntiAlias (ready p0) = AntiAlias p0"
  "SizeX (ready p0) = SizeX p0" "SizeY (ready p0) = SizeY p0"
  "Magnification (ready p0) = Magnification p0" "Continuous (ready p0) = Continuous p0"
  "Palette (ready p0) = Palette p0" "CenterX (ready p0) = CenterX p0"
  "CenterY (ready p0) = CenterY p0" "InsideColor (ready p0) = InsideColor p0"
  by (simp_all add: ready_def Init_def Let_def split: option.splits)

text \<open>
  A pixel worked out by hand: without antialiasing the pixel \<open>(1, 2)\<close> of the example is
  sampled at \<open>- 1.75 - i\<close>, which is outside the circle of radius 2, so the evaluator
  returns 1 and the pixel has the second color of the palette.
\<close>

lemma example_coordinates:
  "plane_x (ready (example\<lparr>AntiAlias := 1\<rparr>)) 3 1 fzero = Finite True (7 / 4)"
  "plane_y (ready (example\<lparr>AntiAlias := 1\<rparr>)) 3 2 fzero = Finite True 1"
  using float64_of_int_exact[of "- 1"] float64_of_int_exact[of 1] float64_of_int_exact[of 2]
    round_to_dyadic[of 7 2 True] round_to_dyadic[of 1 0 True] round_to_dyadic[of 1 0 False]
  by (simp_all add: plane_x_def plane_y_def Init_fields example_simps go_quot_def wrap64_def feval)

lemma example_sample:
  "getColor pf (ready (example\<lparr>AntiAlias := 1\<rparr>))
     (mandel pf 50 (plane_x (ready (example\<lparr>AntiAlias := 1\<rparr>)) 3 1 fzero)
        (plane_y (ready (example\<lparr>AntiAlias := 1\<rparr>)) 3 2 fzero) False) = Inr (255, 128, 0)"
proof -
  have f: "is_float64 (Finite True (7 / 4))" "is_float64 (Finite True 1)"
    unfolding example_coordinates[symmetric] by (simp_all add: plane_x_def plane_y_def fsub_def)
  have e: "escapes_at False (Finite True (7 / 4)) (Finite True 1) 1"
    using round_to_dyadic[of 49 4 False] round_to_dyadic[of 65 4 False]
    by (simp add: escapes_at_def norm2_def orbit_def feval)
  have "mandel pf 50 (Finite True (7 / 4)) (Finite True 1) False = float64_of_int (int 1)"
    using mandel_first_escape[OF f, of 1 50 False pf] e by simp
  then have m: "mandel pf 50 (Finite True (7 / 4)) (Finite True 1) False = Finite False 1"
    by (simp add: fone_def)
  show ?thesis
    unfolding example_coordinates m
    by (simp add: getColor_def Init_fields example_simps palette_at_def go_rem_def go_quot_def
        rgb_of_def color_simps Let_def fzero_def sval_def)
qed

lemma example_pixel:
  "CalcPixel pf (ready (example\<lparr>AntiAlias := 1\<rparr>)) 1 2 =
     Inr \<lparr>cR = 255, cG = 128, cB = 0, cA = 255\<rparr>"
proof -
  have "Init (roomy pf) (example\<lparr>AntiAlias := 1\<rparr>) =
      Inr (ready (example\<lparr>AntiAlias := 1\<rparr>), None)"
    by (rule Init_ok) (simp_all add: example_simps)
  from Init_offsets[OF this]
  have so: "subpixOffsets (ready (example\<lparr>AntiAlias := 1\<rparr>)) = [fzero]"
    by (simp add: Init_fields example_simps upto_rec1 offset_1_0)
  show ?thesis
    by (simp add: CalcPixel_def so Init_fields example_simps sample_def Let_def example_sample
        accumulate_def wrap64_def go_quot_def)
qed


lemma not_finite_fdiv_zero: "\<not> is_finite (fdiv num (Finite t 0))"
  by (cases num) simp_all

lemma not_finite_fadd: "\<not> is_finite q \<Longrightarrow> \<not> is_finite (fadd c q)"
  by (cases c; cases q) simp_all

lemma not_finite_fneg: "\<not> is_finite q \<Longrightarrow> \<not> is_finite (fneg q)"
  by (cases q) simp_all

text \<open>
  C10.  Let \<open>p\<close> be parameters that \<open>Init\<close> has returned without an error, with a finite
  positive magnification and at most \<open>2 ^ 63 - 1024\<close> iterations, whose smaller image dimension
  is 1.  Then the denominator \<open>Magnification * float64(minsize - 1)\<close> of the sample
  coordinates is 0; a quotient by it is NaN for a zero numerator and an infinity for any
  other finite numerator; no sample coordinate is finite; and \<open>CalcPixel\<close> returns a color
  for every pixel, without a panic.
\<close>

theorem CalcPixel_degenerate:
  assumes "Init pf p0 = Inr (p, None)" and "MaxIterations p \<le> 2 ^ 63 - 1024"
    and "min (SizeX p) (SizeY p) = 1" and "Magnification p = Finite False m" and "0 < m"
  shows "fmul (Magnification p) (float64_of_int (min (SizeX p) (SizeY p) - 1)) = fzero \<and>
         (\<forall>s a. fdiv (Finite s a) fzero = (if a = 0 then NaN else Infinity s)) \<and>
         (\<forall>xoffset. \<not> is_finite (plane_x p (min (SizeX p) (SizeY p)) col xoffset)) \<and>
         (\<forall>yoffset. \<not> is_finite (plane_y p (min (SizeX p) (SizeY p)) row yoffset)) \<and>
         (\<exists>c. CalcPixel pf p col row = Inr c)"
proof (intro conjI allI)
  note i = Init_offsets[OF assms(1)]
  show den: "fmul (Magnification p) (float64_of_int (min (SizeX p) (SizeY p) - 1)) = fzero"
    by (simp add: assms(3,4) fzero_def)
  show "fdiv (Finite s a) fzero = (if a = 0 then NaN else Infinity s)" for s a
    by (simp add: fzero_def)
  have w: "wrap64 (min (SizeX p) (SizeY p) - 1) = min (SizeX p) (SizeY p) - 1"
    by (simp add: assms(3))
  show "\<not> is_finite (plane_x p (min (SizeX p) (SizeY p)) col xoffset)" for xoffset
    unfolding plane_x_def w den fzero_def
    by (intro not_finite_fadd not_finite_fdiv_zero)
  show "\<not> is_finite (plane_y p (min (SizeX p) (SizeY p)) row yoffset)" for yoffset
    unfolding plane_y_def w den fzero_def fsub_def
    by (intro not_finite_fadd not_finite_fneg not_finite_fdiv_zero)
  have len: "int (length (subpixOffsets p)) = AntiAlias p"
    using i by (auto simp: conjunct1)
  have aa: "AntiAlias p \<noteq> 0" using i by simp
  from CalcPixel_sums[OF len _ assms(2) aa, of pf col row] i
  show "\<exists>c. CalcPixel pf p col row = Inr c" by blast
qed


theorem CalcPixel_degenerate_witness:
  "\<forall>pf. Init (roomy pf) (example\<lparr>SizeY := 1\<rparr>) = Inr (ready (example\<lparr>SizeY := 1\<rparr>), None) \<and>
     1 \<le> AntiAlias (ready (example\<lparr>SizeY := 1\<rparr>)) \<and>
     Palette (ready (example\<lparr>SizeY := 1\<rparr>)) \<noteq> [] \<and>
     1 \<le> MaxIterations (ready (example\<lparr>SizeY := 1\<rparr>)) \<and>
     MaxIterations (ready (example\<lparr>SizeY := 1\<rparr>)) \<le> 2 ^ 63 - 1024 \<and>
     SizeX (ready (example\<lparr>SizeY := 1\<rparr>)) = 4 \<and>
     SizeY (ready (example\<lparr>SizeY := 1\<rparr>)) = 1 \<and>
     min (SizeX (ready (example\<lparr>SizeY := 1\<rparr>))) (SizeY (ready (example\<lparr>SizeY := 1\<rparr>))) = 1 \<and>
     Magnification (ready (example\<lparr>SizeY := 1\<rparr>)) = Finite False (1 / 2) \<and>
     (0::rat) < 1 / 2 \<and>
     fmul (Magnification (ready (example\<lparr>SizeY := 1\<rparr>))) (float64_of_int (1 - 1)) = fzero \<and>
     fdiv (Finite True 2) fzero = Infinity True \<and> fdiv (Finite True 0) fzero = NaN \<and>
     \<not> is_finite (plane_x (ready (example\<lparr>SizeY := 1\<rparr>)) 1 0 (offset 2 0)) \<and>
     \<not> is_finite (plane_y (ready (example\<lparr>SizeY := 1\<rparr>)) 1 0 (offset 2 1)) \<and>
     (\<exists>c. CalcPixel (roomy pf) (ready (example\<lparr>SizeY := 1\<rparr>)) 0 0 = Inr c)"
proof (intro allI)
  fix pf
  define q where "q = ready (example\<lparr>SizeY := 1\<rparr>)"
  have i: "Init (roomy pf) (example\<lparr>SizeY := 1\<rparr>) = Inr (q, None)"
    unfolding q_def by (rule Init_ok) (simp_all add: example_simps)
  have f: "AntiAlias q = 2" "Palette q \<noteq> []" "MaxIterations q = 50" "SizeX q = 4" "SizeY q = 1"
    "Magnification q = Finite False (1 / 2)"
    by (simp_all add: q_def Init_fields example_simps fhalf_def)
  have m: "MaxIterations q \<le> 2 ^ 63 - 1024" "min (SizeX q) (SizeY q) = 1" "(0::rat) < 1 / 2"
    by (simp_all add: f)
  note t = CalcPixel_degenerate[OF i m(1,2) f(6) m(3), of 0 0]
  from t have d: "fmul (Magnification q) (float64_of_int (1 - 1)) = fzero"
    by (simp add: m)
  from t have e: "fdiv (Finite True 2) fzero = Infinity True" "fdiv (Finite True 0) fzero = NaN"
    by simp_all
  from t have x: "\<not> is_finite (plane_x q 1 0 (offset 2 0))" "\<not> is_finite (plane_y q 1 0 (offset 2 1))"
    by (simp_all add: m)
  from t have c: "\<exists>c. CalcPixel (roomy pf) q 0 0 = Inr c"
    by simp
  from i f m d e x c
  show "Init (roomy pf) (example\<lparr>SizeY := 1\<rparr>) = Inr (ready (example\<lparr>SizeY := 1\<rparr>), None) \<and>
     1 \<le> AntiAlias (ready (example\<lparr>SizeY := 1\<rparr>)) \<and>
     Palette (ready (example\<lparr>SizeY := 1\<rparr>)) \<noteq> [] \<and>
     1 \<le> MaxIterations (ready (example\<lparr>SizeY := 1\<rparr>)) \<and>
     MaxIterations (ready (example\<lparr>SizeY := 1\<rparr>)) \<le> 2 ^ 63 - 1024 \<and>
     SizeX (ready (example\<lparr>SizeY := 1\<rparr>)) = 4 \<and>
     SizeY (ready (example\<lparr>SizeY := 1\<rparr>)) = 1 \<and>
     min (SizeX (ready (example\<lparr>SizeY := 1\<rparr>))) (SizeY (ready (example\<lparr>SizeY := 1\<rparr>))) = 1 \<and>
     Magnification (ready (example\<lparr>SizeY := 1\<rparr>)) = Finite False (1 / 2) \<and>
     (0::rat) < 1 / 2 \<and>
     fmul (Magnification (ready (example\<lparr>SizeY := 1\<rparr>))) (float64_of_int (1 - 1)) = fzero \<and>
     fdiv (Finite True 2) fzero = Infinity True \<and> fdiv (Finite True 0) fzero = NaN \<and>
     \<not> is_finite (plane_x (ready (example\<lparr>SizeY := 1\<rparr>)) 1 0 (offset 2 0)) \<and>
     \<not> is_finite (plane_y (ready (example\<lparr>SizeY := 1\<rparr>)) 1 0 (offset 2 1)) \<and>
     (\<exists>c. CalcPixel (roomy pf) (ready (example\<lparr>SizeY := 1\<rparr>)) 0 0 = Inr c)"
    unfolding q_def[symmetric] by simp
qed

text \<open>
  C9, the part that holds.  \<open>CalcPixel\<close> on parameters without subpixel offsets panics for
  every pixel: at its guard when \<open>AntiAlias\<close> is not 0, and in the division by
  \<open>AntiAlias * AntiAlias\<close> when it is 0.  \<open>Generate\<close> panics at its guard when \<open>AntiAlias\<close> is
  not 0.
\<close>

lemma before_Init_panics:
  assumes "subpixOffsets p = []"
  shows "(\<exists>e. CalcPixel pf p col row = Inl e) \<and>
         (AntiAlias p \<noteq> 0 \<longrightarrow>
            CalcPixel pf p col row = Inl (Panic ''CalcPixel cannot be called before Init'') \<and>
            Generate_start pf p fanout = Crashed (Panic ''Generate cannot be called before Init'')) \<and>
         (AntiAlias p = 0 \<longrightarrow> CalcPixel pf p col row = Inl DivideByZero)"
  using assms by (simp add: CalcPixel_def Generate_start_def Let_def)

text \<open>
  C9, where the code departs from it.  The guard of \<open>Generate\<close> compares the number of
  offsets with \<open>AntiAlias\<close>, and on the zero value of \<open>Parameters\<close> both are 0: \<open>Generate\<close>
  does not panic.  With an empty image no pixel is computed, and \<open>Generate\<close> returns the
  empty canvas, here with one worker.
\<close>

theorem Generate_zero_Parameters_returns:
  "subpixOffsets zero_Parameters = [] \<and>
   Generate_start example_platform zero_Parameters 1 =
     Running \<lparr>main_at = Feeding 0, workers = {#Idle#}, pixelch = [],
              aggregator_at = Receiving, canvas = (\<lambda>pt. zero_pixel)\<rparr> \<and>
   Generate_returns example_platform zero_Parameters 1 (\<lambda>pt. zero_pixel)"
proof -
  let ?p = zero_Parameters and ?pf = example_platform
  let ?s = "\<lambda>m w a. \<lparr>main_at = m, workers = w, pixelch = [],
              aggregator_at = a, canvas = (\<lambda>pt. zero_pixel)\<rparr>"
  have st: "Generate_start ?pf ?p 1 = Running (?s (Feeding 0) {#Idle#} Receiving)"
    by (simp add: Generate_start_def zero_Parameters_def makechan_def NewNRGBA_def makeslice_def
        maxAlloc_def wrap64_def example_platform_def)
  have r0: "reaches ?pf ?p 1 (Running (?s (Feeding 0) {#Idle#} Receiving))"
    unfolding st[symmetric] by (rule reaches.start)
  have "step ?pf ?p 1 (?s (Feeding 0) {#Idle#} Receiving)
      (Running ((?s (Feeding 0) {#Idle#} Receiving)\<lparr>main_at := Waiting 0\<rparr>))"
    by (rule step.close_rows[where r = 0]) (simp_all add: zero_Parameters_def)
  with r0 have r1: "reaches ?pf ?p 1 (Running (?s (Waiting 0) {#Idle#} Receiving))"
    by (auto dest: reaches.after)
  have "step ?pf ?p 1 (?s (Waiting 0) {#Idle#} Receiving)
      (Running ((?s (Waiting 0) {#Idle#} Receiving)\<lparr>workers := add_mset Finished {#}\<rparr>))"
    by (rule step.no_more_rows) (simp_all add: rows_closed_def)
  with r1 have r2: "reaches ?pf ?p 1 (Running (?s (Waiting 0) {#Finished#} Receiving))"
    by (auto dest: reaches.after)
  have "step ?pf ?p 1 (?s (Waiting 0) {#Finished#} Receiving)
      (Running ((?s (Waiting 0) {#Finished#} Receiving)
         \<lparr>main_at := Waiting (0 + 1), workers := add_mset Gone {#}\<rparr>))"
    by (rule step.worker_done) simp_all
  with r2 have r3: "reaches ?pf ?p 1 (Running (?s (Waiting 1) {#Gone#} Receiving))"
    by (auto dest: reaches.after)
  have "step ?pf ?p 1 (?s (Waiting 1) {#Gone#} Receiving)
      (Running ((?s (Waiting 1) {#Gone#} Receiving)\<lparr>main_at := Final\<rparr>))"
    by (rule step.close_pixelch[where k = 1]) simp_all
  with r3 have r4: "reaches ?pf ?p 1 (Running (?s Final {#Gone#} Receiving))"
    by (auto dest: reaches.after)
  have "step ?pf ?p 1 (?s Final {#Gone#} Receiving)
      (Running ((?s Final {#Gone#} Receiving)\<lparr>aggregator_at := Signalling\<rparr>))"
    by (rule step.drained) (simp_all add: pixelch_closed_def)
  with r4 have r5: "reaches ?pf ?p 1 (Running (?s Final {#Gone#} Signalling))"
    by (auto dest: reaches.after)
  have "step ?pf ?p 1 (?s Final {#Gone#} Signalling)
      (Running ((?s Final {#Gone#} Signalling)\<lparr>main_at := Returned, aggregator_at := Ended\<rparr>))"
    by (rule step.last_aggregator_done) simp_all
  with r5 have r6: "reaches ?pf ?p 1 (Running (?s Returned {#Gone#} Ended))"
    by (auto dest: reaches.after)
  then have "Generate_returns ?pf ?p 1 (\<lambda>pt. zero_pixel)"
    unfolding Generate_returns_def by (intro exI[of _ "?s Returned {#Gone#} Ended"]) simp
  with st show ?thesis by (simp add: zero_Parameters_def)
qed

subsection \<open>The runs of \<open>Generate\<close>\<close>

text \<open>
  What \<open>scheduler_ok\<close> says holds at the start of \<open>Generate\<close> and after every step, so it
  holds in every state of every run.
\<close>

lemma all_Gone_count:
  "count M x = size M \<Longrightarrow> \<forall>w \<in># M. w = x"
proof (induction M)
  case empty
  then show ?case by simp
next
  case (add y M)
  have "count M x \<le> size M" by (rule count_le_size)
  with add.prems have "y = x" "count M x = size M" by (auto split: if_splits)
  with add.IH show ?case by simp
qed


lemma count_all_Gone:
  "\<forall>w \<in># M. w = x \<Longrightarrow> count M x = size M"
  by (induction M) simp_all

lemma active_no_Gone:
  "\<forall>w \<in># M. active w \<Longrightarrow> count M Gone = 0"
  by (auto simp: count_eq_zero_iff)

lemma rendered_ok:
  "pixel_ok pf p (x, y, color) \<Longrightarrow> rendered pf p (x, y) = color"
  by (simp add: rendered_def)

lemma in_canvas_ok:
  "pixel_ok pf p (x, y, color) \<Longrightarrow> in_canvas p (x, y)"
  by (simp add: in_canvas_def)

lemma ok_step_basic:
  assumes inv: "scheduler_ok pf p fanout s" and st: "step pf p fanout s (Running t)"
  shows "size (workers t) = fanout \<and> (\<forall>w \<in># workers t. worker_ok pf p w) \<and>
         (\<forall>e \<in> set (pixelch t). pixel_ok pf p e) \<and> phase_ok fanout t (main_at t) \<and>
         (\<forall>pt. canvas t pt = rendered pf p pt \<or> canvas t pt = zero_pixel)"
  using st
proof (cases rule: step.cases)
  case (feed r ws)
  with inv show ?thesis
    by (auto simp: scheduler_ok_def)
next
  case (close_rows r)
  with inv show ?thesis
    by (auto simp: scheduler_ok_def active_no_Gone)
next
  case (no_more_rows ws)
  with inv show ?thesis
    by (cases "main_at s") (auto simp: scheduler_ok_def rows_closed_def)
next
  case (compute r c ws color)
  with inv show ?thesis
    by (cases "main_at s") (auto simp: scheduler_ok_def)
next
  case (row_done r c ws)
  with inv show ?thesis
    by (cases "main_at s") (auto simp: scheduler_ok_def)
next
  case (send r c color ws)
  with inv show ?thesis
    by (cases "main_at s") (auto simp: scheduler_ok_def pixelch_closed_def)
next
  case (receive x y color rest)
  with inv show ?thesis
    by (cases "main_at s")
      (auto simp: scheduler_ok_def canvas_Set_def in_canvas_ok rendered_ok)
next
  case drained
  with inv show ?thesis
    by (cases "main_at s") (auto simp: scheduler_ok_def pixelch_closed_def)
next
  case (worker_done k ws)
  with inv show ?thesis
    by (auto simp: scheduler_ok_def)
next
  case (aggregator_done k)
  with inv show ?thesis
    by (auto simp: scheduler_ok_def)
next
  case (close_pixelch k)
  with inv have "count (workers s) Gone = size (workers s)"
    by (auto simp: scheduler_ok_def)
  then have "\<forall>w \<in># workers s. w = Gone" by (rule all_Gone_count)
  with close_pixelch inv show ?thesis
    by (auto simp: scheduler_ok_def)
next
  case (last_worker_done ws)
  with inv show ?thesis
    by (auto simp: scheduler_ok_def)
next
  case last_aggregator_done
  with inv show ?thesis
    by (auto simp: scheduler_ok_def)
qed

lemma ok_step_cover:
  assumes inv: "scheduler_ok pf p fanout s" and st: "step pf p fanout s (Running t)"
    and b: "0 \<le> x \<and> x < SizeX p \<and> 0 \<le> y \<and> y < SizeY p"
  shows "pending t x y \<or> canvas t (x, y) = rendered pf p (x, y)"
proof -
  from inv b have cov: "pending s x y \<or> canvas s (x, y) = rendered pf p (x, y)"
    unfolding scheduler_ok_def by blast
  from inv have w: "\<forall>w \<in># workers s. worker_ok pf p w"
    and e: "\<forall>e \<in> set (pixelch s). pixel_ok pf p e"
    and ph: "phase_ok fanout s (main_at s)"
    unfolding scheduler_ok_def by blast+
  from st show ?thesis
  proof (cases rule: step.cases)
    case (feed r ws)
    with cov b show ?thesis by (auto simp: pending_def)
  next
    case (close_rows r)
    with cov b show ?thesis by (auto simp: pending_def)
  next
    case (no_more_rows ws)
    with cov b show ?thesis by (auto simp: pending_def)
  next
    case (compute r c ws color)
    with cov b show ?thesis by (auto simp: pending_def)
  next
    case (row_done r c ws)
    with cov b show ?thesis by (auto simp: pending_def)
  next
    case (send r c color ws)
    with cov b show ?thesis by (auto simp: pending_def)
  next
    case (receive x' y' color rest)
    with e have "pixel_ok pf p (x', y', color)" by simp
    then have "rendered pf p (x', y') = color" "in_canvas p (x', y')"
      by (rule rendered_ok, rule in_canvas_ok)
    with receive cov b show ?thesis by (auto simp: pending_def canvas_Set_def)
  next
    case drained
    with cov b show ?thesis by (auto simp: pending_def)
  next
    case (worker_done k ws)
    with cov b show ?thesis by (auto simp: pending_def)
  next
    case (aggregator_done k)
    with cov b show ?thesis by (auto simp: pending_def)
  next
    case (close_pixelch k)
    with cov b show ?thesis by (auto simp: pending_def)
  next
    case (last_worker_done ws)
    with cov b show ?thesis by (auto simp: pending_def)
  next
    case last_aggregator_done
    with cov b show ?thesis by (auto simp: pending_def)
  qed
qed

lemma ok_step:
  assumes "scheduler_ok pf p fanout s" and "step pf p fanout s (Running t)"
  shows "scheduler_ok pf p fanout t"
  using ok_step_basic[OF assms] ok_step_cover[OF assms]
  unfolding scheduler_ok_def by blast


lemma start_ok:
  assumes "int (length (subpixOffsets p)) = AntiAlias p"
    and "makechan pf 32 (SizeX p) = None" and "NewNRGBA pf (SizeX p) (SizeY p) = None"
  shows "\<exists>s. Generate_start pf p fanout = Running s \<and> scheduler_ok pf p fanout s"
  using assms by (simp add: Generate_start_def scheduler_ok_def pending_def)

lemma ok_no_crash:
  assumes inv: "scheduler_ok pf p fanout s" and st: "step pf p fanout s (Crashed e)"
    and tot: "\<And>c r. \<exists>color. CalcPixel pf p c r = Inr color"
  shows False
  using st
proof (cases rule: step.cases)
  case (compute_panic r c ws)
  with tot[of c r] show ?thesis by simp
next
  case (send_closed r c color ws)
  with inv show ?thesis
    by (cases "main_at s") (auto simp: scheduler_ok_def pixelch_closed_def)
qed

lemma reaches_ok:
  assumes r: "reaches pf p fanout out"
    and len: "int (length (subpixOffsets p)) = AntiAlias p"
    and ch: "makechan pf 32 (SizeX p) = None" and cv: "NewNRGBA pf (SizeX p) (SizeY p) = None"
    and tot: "\<And>c r. \<exists>color. CalcPixel pf p c r = Inr color"
  shows "\<exists>s. out = Running s \<and> scheduler_ok pf p fanout s"
  using r
proof (induction rule: reaches.induct)
  case start
  show ?case by (rule start_ok[OF len ch cv])
next
  case (after s t)
  then have inv: "scheduler_ok pf p fanout s" by simp
  show ?case
  proof (cases t)
    case (Running t')
    with after.hyps(2) inv show ?thesis by (auto intro: ok_step)
  next
    case (Crashed e)
    with after.hyps(2) inv tot show ?thesis by (auto dest: ok_no_crash)
  qed
qed

lemma worker_progress:
  assumes inv: "scheduler_ok pf p fanout s" and w: "w \<in># workers s"
    and agg: "aggregator_at s = Receiving" and op: "\<not> pixelch_closed s"
    and cl: "w = Idle \<Longrightarrow> rows_closed s \<or> (\<exists>r. main_at s = Feeding r \<and> r < SizeY p)"
    and fin: "w = Finished \<Longrightarrow> \<exists>k. main_at s = Waiting k \<and> k < fanout"
    and ng: "w \<noteq> Gone"
  shows "\<exists>t. step pf p fanout s t"
proof -
  from w obtain ws where ws: "workers s = add_mset w ws"
    by (auto dest: multi_member_split)
  from inv w have wok: "worker_ok pf p w" by (simp add: scheduler_ok_def)
  show ?thesis
  proof (cases w)
    case Idle
    with cl ws show ?thesis
      by (auto intro: step.no_more_rows step.feed)
  next
    case (Busy r c)
    show ?thesis
    proof (cases "c < SizeX p")
      case True
      show ?thesis
      proof (cases "CalcPixel pf p c r")
        case (Inl e)
        with ws Busy True show ?thesis by (auto intro: step.compute_panic)
      next
        case (Inr color)
        with ws Busy True show ?thesis by (auto intro: step.compute)
      qed
    next
      case False
      with ws Busy show ?thesis by (auto intro: step.row_done)
    qed
  next
    case (Sending r c color)
    show ?thesis
    proof (cases "int (length (pixelch s)) < SizeX p")
      case True
      with ws Sending op show ?thesis by (auto intro: step.send)
    next
      case False
      with wok Sending have "pixelch s \<noteq> []" by auto
      then obtain x y col rest where "pixelch s = (x, y, col) # rest"
        by (cases "pixelch s") auto
      with agg show ?thesis by (auto intro: step.receive)
    qed
  next
    case Finished
    with fin ws show ?thesis by (auto intro: step.worker_done)
  next
    case Gone
    with ng show ?thesis by simp
  qed
qed

lemma ok_progress:
  assumes inv: "scheduler_ok pf p fanout s" and nr: "main_at s \<noteq> Returned"
    and f: "1 \<le> fanout"
  shows "\<exists>t. step pf p fanout s t"
proof (cases "main_at s")
  case (Feeding r)
  show ?thesis
  proof (cases "r < SizeY p")
    case False
    with Feeding show ?thesis by (auto intro: step.close_rows)
  next
    case True
    from inv f have "workers s \<noteq> {#}" by (auto simp: scheduler_ok_def)
    then obtain w where w: "w \<in># workers s" by (auto simp: multiset_nonemptyE)
    with inv Feeding have a: "active w" "aggregator_at s = Receiving"
      by (auto simp: scheduler_ok_def)
    show ?thesis
    proof (rule worker_progress[OF inv w a(2)])
      show "\<not> pixelch_closed s" using Feeding by (simp add: pixelch_closed_def)
      show "rows_closed s \<or> (\<exists>r. main_at s = Feeding r \<and> r < SizeY p)"
        using Feeding True by simp
      show "\<exists>k. main_at s = Waiting k \<and> k < fanout" if "w = Finished"
        using that a by simp
      show "w \<noteq> Gone" using a by auto
    qed
  qed
next
  case (Waiting k)
  show ?thesis
  proof (cases "k < fanout")
    case False
    with Waiting show ?thesis by (auto intro: step.close_pixelch)
  next
    case True
    from inv Waiting have c: "count (workers s) Gone = k" "size (workers s) = fanout"
      "aggregator_at s = Receiving"
      by (auto simp: scheduler_ok_def)
    have "\<exists>w. w \<in># workers s \<and> w \<noteq> Gone"
    proof (rule ccontr)
      assume "\<not> ?thesis"
      then have "\<forall>w \<in># workers s. w = Gone" by blast
      then have "count (workers s) Gone = size (workers s)" by (rule count_all_Gone)
      with c True show False by simp
    qed
    then obtain w where w: "w \<in># workers s" "w \<noteq> Gone" by blast
    show ?thesis
    proof (rule worker_progress[OF inv w(1) c(3)])
      show "\<not> pixelch_closed s" using Waiting by (simp add: pixelch_closed_def)
      show "rows_closed s \<or> (\<exists>r. main_at s = Feeding r \<and> r < SizeY p)"
        using Waiting by (simp add: rows_closed_def)
      show "\<exists>k. main_at s = Waiting k \<and> k < fanout"
        using Waiting True by simp
      show "w \<noteq> Gone" by (rule w(2))
    qed
  qed
next
  case Final
  with inv have a: "aggregator_at s \<noteq> Ended" by (simp add: scheduler_ok_def)
  show ?thesis
  proof (cases "aggregator_at s")
    case Receiving
    show ?thesis
    proof (cases "pixelch s")
      case Nil
      with Receiving Final
      have "step pf p fanout s (Running (s\<lparr>aggregator_at := Signalling\<rparr>))"
        by (intro step.drained) (simp_all add: pixelch_closed_def)
      then show ?thesis by blast
    next
      case (Cons e rest)
      obtain x y col where "e = (x, y, col)" by (cases e) auto
      with Cons Receiving show ?thesis by (auto intro: step.receive)
    qed
  next
    case Signalling
    with Final show ?thesis by (auto intro: step.last_aggregator_done)
  next
    case Ended
    with a show ?thesis by simp
  qed
next
  case Returned
  with nr show ?thesis by simp
qed

lemma ok_decrease:
  assumes inv: "scheduler_ok pf p fanout s" and st: "step pf p fanout s (Running t)"
  shows "steps_left p fanout t < steps_left p fanout s"
  using st
proof (cases rule: step.cases)
  case (feed r ws)
  from inv feed have "0 \<le> r" by (simp add: scheduler_ok_def)
  with feed have "nat (SizeY p - r) = Suc (nat (SizeY p - (r + 1)))" by simp
  with feed show ?thesis by (simp add: steps_left_def)
next
  case (close_rows r)
  then show ?thesis by (simp add: steps_left_def)
next
  case (no_more_rows ws)
  then show ?thesis by (simp add: steps_left_def)
next
  case (compute r c ws color)
  then show ?thesis by (simp add: steps_left_def)
next
  case (row_done r c ws)
  then show ?thesis by (simp add: steps_left_def)
next
  case (send r c color ws)
  with inv have "c < SizeX p" by (simp add: scheduler_ok_def)
  then have "nat (SizeX p - c) = Suc (nat (SizeX p - (c + 1)))" by simp
  with send show ?thesis by (simp add: steps_left_def)
next
  case (receive x y color rest)
  then show ?thesis by (simp add: steps_left_def)
next
  case drained
  then show ?thesis by (simp add: steps_left_def)
next
  case (worker_done k ws)
  then show ?thesis by (simp add: steps_left_def)
next
  case (aggregator_done k)
  then show ?thesis by (simp add: steps_left_def)
next
  case (close_pixelch k)
  then show ?thesis by (simp add: steps_left_def)
next
  case (last_worker_done ws)
  then show ?thesis by (simp add: steps_left_def)
next
  case last_aggregator_done
  then show ?thesis by (simp add: steps_left_def)
qed

lemma ok_returned:
  assumes inv: "scheduler_ok pf p fanout s" and ret: "main_at s = Returned"
  shows "canvas s = rendered pf p"
proof (rule ext)
  fix pt :: "int \<times> int"
  obtain x y where pt: "pt = (x, y)" by (cases pt) auto
  show "canvas s pt = rendered pf p pt"
  proof (cases "0 \<le> x \<and> x < SizeX p \<and> 0 \<le> y \<and> y < SizeY p")
    case True
    with inv have "pending s x y \<or> canvas s (x, y) = rendered pf p (x, y)"
      unfolding scheduler_ok_def by blast
    moreover from inv ret have "\<not> pending s x y"
      by (auto simp: scheduler_ok_def pending_def)
    ultimately show ?thesis by (simp add: pt)
  next
    case False
    then have "rendered pf p pt = zero_pixel" by (auto simp: rendered_def pt)
    moreover from inv have "canvas s pt = rendered pf p pt \<or> canvas s pt = zero_pixel"
      unfolding scheduler_ok_def by blast
    ultimately show ?thesis by auto
  qed
qed

lemma reaches_returns:
  assumes len: "int (length (subpixOffsets p)) = AntiAlias p"
    and ch: "makechan pf 32 (SizeX p) = None" and cv: "NewNRGBA pf (SizeX p) (SizeY p) = None"
    and tot: "\<And>c r. \<exists>color. CalcPixel pf p c r = Inr color"
    and f: "1 \<le> fanout"
  shows "reaches pf p fanout (Running s) \<Longrightarrow>
    \<exists>s'. reaches pf p fanout (Running s') \<and> main_at s' = Returned"
proof (induction "steps_left p fanout s" arbitrary: s rule: less_induct)
  case less
  from reaches_ok[OF less.prems len ch cv tot] have inv: "scheduler_ok pf p fanout s" by simp
  show ?case
  proof (cases "main_at s = Returned")
    case True
    with less.prems show ?thesis by blast
  next
    case False
    from ok_progress[OF inv False f] obtain t where st: "step pf p fanout s t" by blast
    with less.prems have rt: "reaches pf p fanout t" by (rule reaches.after)
    from reaches_ok[OF rt len ch cv tot] obtain t' where t': "t = Running t'" by blast
    with st inv have "steps_left p fanout t' < steps_left p fanout s"
      by (auto intro: ok_decrease)
    from less.hyps[OF this] rt t' show ?thesis by simp
  qed
qed

lemma CalcPixel_total:
  assumes "Init pf0 p0 = Inr (p, None)" and "MaxIterations p \<le> 2 ^ 63 - 1024"
  shows "int (length (subpixOffsets p)) = AntiAlias p \<and>
         (\<forall>col row. \<exists>color. CalcPixel pf p col row = Inr color)"
proof -
  from Init_offsets[OF assms(1)] have a: "1 \<le> AntiAlias p" "Palette p \<noteq> []"
    and o: "subpixOffsets p = map (offset (AntiAlias p)) [0..AntiAlias p - 1]"
    by simp_all
  from a(1) have len: "int (length (subpixOffsets p)) = AntiAlias p"
    by (subst o) simp
  from a(1) have "AntiAlias p \<noteq> 0" by simp
  from CalcPixel_sums[OF len a(2) assms(2) this, of pf]
  have "\<exists>color. CalcPixel pf p col row = Inr color" for col row
    by blast
  with len show ?thesis by blast
qed

text \<open>
  \<open>Generate\<close> panics at once for a width of \<open>2 ^ 43\<close> or more, in \<open>make(chan pixel, p.SizeX)\<close>,
  and for an image of \<open>2 ^ 46\<close> pixels or more, in \<open>image.NewNRGBA\<close>.
\<close>

lemma Generate_start_too_wide:
  assumes "int (length (subpixOffsets p)) = AntiAlias p" and "2 ^ 43 \<le> SizeX p"
    and "0 < hchanSize pf"
  shows "Generate_start pf p fanout = Crashed (Panic ''makechan: size out of range'')"
  using assms by (simp add: Generate_start_def makechan_def maxAlloc_def)

lemma NewNRGBA_too_large:
  assumes "0 \<le> w" "w < 2 ^ 63" "0 \<le> h" "h < 2 ^ 63" "2 ^ 46 < w * h"
  shows "\<exists>e. NewNRGBA pf w h = Some (Panic e)"
proof -
  from assms have "wrap64 \<bar>w\<bar> = w" "wrap64 \<bar>h\<bar> = h"
    by (simp_all add: wrap64_id)
  moreover from assms(5) have "2 ^ 46 < h * w" by (simp add: mult.commute)
  ultimately show ?thesis
    using assms(5) by (simp add: NewNRGBA_def makeslice_def maxAlloc_def Let_def)
qed

text \<open>
  C8.  For parameters that \<open>Init\<close> has accepted, with at most \<open>2 ^ 63 - 1024\<close> iterations, a
  level below \<open>2 ^ 31\<close> and a height in the range of \<open>int\<close>, whose channel of pixels and
  whose canvas could be made, and for every pool of at least one worker: no run of
  \<open>Generate\<close> panics; a run that has not returned can take a step, and every step lowers
  \<open>steps_left\<close>, so that every run returns; the canvas that a run returns is \<open>rendered\<close>,
  which holds the color of \<open>CalcPixel\<close> at every pixel of the image; and the canvases that
  two runs return are equal, whatever the orders of their steps and the sizes of their
  pools.
\<close>

theorem Generate_deterministic:
  assumes "Init pf p0 = Inr (p, None)" and "MaxIterations p \<le> 2 ^ 63 - 1024"
    and "AntiAlias p < 2 ^ 31" and "SizeY p < 2 ^ 63"
    and "makechan pf 32 (SizeX p) = None" and "NewNRGBA pf (SizeX p) (SizeY p) = None"
    and "1 \<le> fanout" and "1 \<le> fanout'"
  shows "(\<forall>e. \<not> reaches pf p fanout (Crashed e)) \<and>
         (\<forall>s. reaches pf p fanout (Running s) \<and> main_at s \<noteq> Returned \<longrightarrow>
            (\<exists>t. step pf p fanout s t)) \<and>
         (\<forall>s t. reaches pf p fanout (Running s) \<and> step pf p fanout s (Running t) \<longrightarrow>
            steps_left p fanout t < steps_left p fanout s) \<and>
         (\<exists>cv. Generate_returns pf p fanout cv) \<and>
         (\<forall>cv. Generate_returns pf p fanout cv \<longrightarrow> cv = rendered pf p) \<and>
         (\<forall>cv cv'. Generate_returns pf p fanout cv \<and> Generate_returns pf p fanout' cv' \<longrightarrow>
            cv = cv') \<and>
         (\<forall>cv col row. Generate_returns pf p fanout cv \<and>
            0 \<le> col \<and> col < SizeX p \<and> 0 \<le> row \<and> row < SizeY p \<longrightarrow>
            CalcPixel pf p col row = Inr (cv (col, row)))"
proof -
  from CalcPixel_total[OF assms(1,2), of pf]
  have len: "int (length (subpixOffsets p)) = AntiAlias p"
    and tot: "\<And>c r. \<exists>color. CalcPixel pf p c r = Inr color"
    by blast+
  note ch = assms(5) and cn = assms(6)
  have ok: "\<exists>s. out = Running s \<and> scheduler_ok pf p n s" if "reaches pf p n out" for n out
    using that len ch cn tot by (rule reaches_ok)
  have crash: "\<not> reaches pf p fanout (Crashed e)" for e
    using ok[of fanout "Crashed e"] by auto
  have prog: "\<exists>t. step pf p fanout s t"
    if "reaches pf p fanout (Running s) \<and> main_at s \<noteq> Returned" for s
    using ok[of fanout "Running s"] that assms(7) by (auto intro: ok_progress)
  have decr: "steps_left p fanout t < steps_left p fanout s"
    if "reaches pf p fanout (Running s) \<and> step pf p fanout s (Running t)" for s t
    using ok[of fanout "Running s"] that by (auto intro: ok_decrease)
  have r0: "reaches pf p fanout (Generate_start pf p fanout)" by (rule reaches.start)
  from ok[OF r0] obtain s0 where "Generate_start pf p fanout = Running s0" by blast
  with r0 have "reaches pf p fanout (Running s0)" by simp
  from reaches_returns[OF len ch cn tot assms(7) this]
  have ex: "\<exists>cv. Generate_returns pf p fanout cv"
    unfolding Generate_returns_def by blast
  have ret: "cv = rendered pf p" if "Generate_returns pf p n cv" for n cv
  proof -
    from that obtain s where s: "reaches pf p n (Running s)" "main_at s = Returned"
      "canvas s = cv"
      unfolding Generate_returns_def by blast
    from ok[OF s(1)] have "scheduler_ok pf p n s" by simp
    from ok_returned[OF this s(2)] s(3) show ?thesis by simp
  qed
  have same: "cv = cv'"
    if "Generate_returns pf p fanout cv \<and> Generate_returns pf p fanout' cv'" for cv cv'
    using ret[of fanout cv] ret[of fanout' cv'] that by simp
  have pix: "CalcPixel pf p col row = Inr (cv (col, row))"
    if h: "Generate_returns pf p fanout cv \<and>
      0 \<le> col \<and> col < SizeX p \<and> 0 \<le> row \<and> row < SizeY p" for cv col row
  proof -
    from tot[of col row] obtain color where c: "CalcPixel pf p col row = Inr color" by blast
    with h have "rendered pf p (col, row) = color" by (simp add: rendered_def)
    with ret[of fanout cv] h c show ?thesis by simp
  qed
  from crash prog decr ex ret same pix show ?thesis by blast
qed

theorem Generate_deterministic_witness:
  "\<forall>pf. Init (roomy pf) (example\<lparr>AntiAlias := 1\<rparr>) =
       Inr (ready (example\<lparr>AntiAlias := 1\<rparr>), None) \<and>
     MaxIterations (ready (example\<lparr>AntiAlias := 1\<rparr>)) \<le> 2 ^ 63 - 1024 \<and>
     AntiAlias (ready (example\<lparr>AntiAlias := 1\<rparr>)) < 2 ^ 31 \<and>
     SizeY (ready (example\<lparr>AntiAlias := 1\<rparr>)) < 2 ^ 63 \<and>
     makechan (roomy pf) 32 (SizeX (ready (example\<lparr>AntiAlias := 1\<rparr>))) = None \<and>
     NewNRGBA (roomy pf) (SizeX (ready (example\<lparr>AntiAlias := 1\<rparr>)))
       (SizeY (ready (example\<lparr>AntiAlias := 1\<rparr>))) = None \<and>
     (1::nat) \<le> 2 \<and> (1::nat) \<le> 3 \<and>
     (\<exists>cv. Generate_returns (roomy pf) (ready (example\<lparr>AntiAlias := 1\<rparr>)) 2 cv \<and>
        Generate_returns (roomy pf) (ready (example\<lparr>AntiAlias := 1\<rparr>)) 3 cv \<and>
        cv = rendered (roomy pf) (ready (example\<lparr>AntiAlias := 1\<rparr>)) \<and>
        cv (1, 2) = \<lparr>cR = 255, cG = 128, cB = 0, cA = 255\<rparr> \<and>
        cv (4, 2) = zero_pixel)"
proof (intro allI)
  fix pf
  define q where "q = ready (example\<lparr>AntiAlias := 1\<rparr>)"
  have i: "Init (roomy pf) (example\<lparr>AntiAlias := 1\<rparr>) = Inr (q, None)"
    unfolding q_def by (rule Init_ok) (simp_all add: example_simps)
  have m: "MaxIterations q \<le> 2 ^ 63 - 1024"
    by (simp add: q_def Init_fields example_simps)
  have s: "SizeX q = 4" "SizeY q = 3" "AntiAlias q = 1"
    by (simp_all add: q_def Init_fields example_simps)
  have r: "AntiAlias q < 2 ^ 31" "SizeY q < 2 ^ 63"
    by (simp_all add: s)
  have ch: "makechan (roomy pf) 32 (SizeX q) = None"
    by (simp add: s makechan_def maxAlloc_def)
  have cn: "NewNRGBA (roomy pf) (SizeX q) (SizeY q) = None"
    by (simp add: s NewNRGBA_def makeslice_def maxAlloc_def wrap64_def)
  have f: "(1::nat) \<le> 2" "(1::nat) \<le> 3" by simp_all
  note a = Generate_deterministic[OF i m r ch cn f(1) f(2)]
  note b = Generate_deterministic[OF i m r ch cn f(2) f(2)]
  from a obtain cv where cv: "Generate_returns (roomy pf) q 2 cv" by blast
  from b obtain cv' where cv': "Generate_returns (roomy pf) q 3 cv'" by blast
  from a cv cv' have e: "cv = cv'" by blast
  from a cv have rn: "cv = rendered (roomy pf) q" by blast
  have "(0::int) \<le> 1 \<and> 1 < SizeX q \<and> (0::int) \<le> 2 \<and> 2 < SizeY q"
    by (simp add: s)
  with a cv have "CalcPixel (roomy pf) q 1 2 = Inr (cv (1, 2))" by blast
  then have c: "cv (1, 2) = \<lparr>cR = 255, cG = 128, cB = 0, cA = 255\<rparr>"
    unfolding q_def example_pixel by simp
  have z: "cv (4, 2) = zero_pixel"
    unfolding rn by (simp add: rendered_def s)
  from cv cv' e rn c z have "\<exists>cv. Generate_returns (roomy pf) q 2 cv \<and>
      Generate_returns (roomy pf) q 3 cv \<and> cv = rendered (roomy pf) q \<and>
      cv (1, 2) = \<lparr>cR = 255, cG = 128, cB = 0, cA = 255\<rparr> \<and> cv (4, 2) = zero_pixel"
    by blast
  with i m r ch cn f show "Init (roomy pf) (example\<lparr>AntiAlias := 1\<rparr>) =
       Inr (ready (example\<lparr>AntiAlias := 1\<rparr>), None) \<and>
     MaxIterations (ready (example\<lparr>AntiAlias := 1\<rparr>)) \<le> 2 ^ 63 - 1024 \<and>
     AntiAlias (ready (example\<lparr>AntiAlias := 1\<rparr>)) < 2 ^ 31 \<and>
     SizeY (ready (example\<lparr>AntiAlias := 1\<rparr>)) < 2 ^ 63 \<and>
     makechan (roomy pf) 32 (SizeX (ready (example\<lparr>AntiAlias := 1\<rparr>))) = None \<and>
     NewNRGBA (roomy pf) (SizeX (ready (example\<lparr>AntiAlias := 1\<rparr>)))
       (SizeY (ready (example\<lparr>AntiAlias := 1\<rparr>))) = None \<and>
     (1::nat) \<le> 2 \<and> (1::nat) \<le> 3 \<and>
     (\<exists>cv. Generate_returns (roomy pf) (ready (example\<lparr>AntiAlias := 1\<rparr>)) 2 cv \<and>
        Generate_returns (roomy pf) (ready (example\<lparr>AntiAlias := 1\<rparr>)) 3 cv \<and>
        cv = rendered (roomy pf) (ready (example\<lparr>AntiAlias := 1\<rparr>)) \<and>
        cv (1, 2) = \<lparr>cR = 255, cG = 128, cB = 0, cA = 255\<rparr> \<and>
        cv (4, 2) = zero_pixel)"
    unfolding q_def[symmetric] by blast
qed

lemma pow2_neg_numeral:
  "pow2 (- 1) = 1 / 2" "pow2 (- 53) = 1 / 2 ^ 53" "pow2 (- 54) = 1 / 2 ^ 54"
  "pow2 (- 55) = 1 / 2 ^ 55" "pow2 0 = 1"
  by (simp_all add: pow2_powi power_int_minus field_simps)

lemma rnd_dyadic:
  assumes "0 \<le> k" "k < 2 ^ 53" "j \<le> 1074"
  shows "rnd (of_int k / 2 ^ j) = of_int k / 2 ^ j"
proof -
  have p: "pow2 (- int j) = 1 / 2 ^ j"
    by (simp add: pow2_powi power_int_minus field_simps)
  have "rnd (of_int k * pow2 (- int j)) = of_int k * pow2 (- int j)"
    using assms by (intro rnd_exact) simp_all
  then show ?thesis by (simp add: p)
qed

text \<open>
  The offset of index \<open>i\<close> for \<open>n\<close> samples per side: it is finite, lies strictly between
  \<open>- 1/2\<close> and \<open>1/2\<close>, and misses the exact value \<open>(i + 1/2) / n - 1/2\<close> by at most
  \<open>3 / 2 ^ 55\<close>, the two roundings of the quotient and of the difference.
\<close>

lemma offset_value:
  assumes n: "1 \<le> n" "n \<le> 2 ^ 52" and i: "0 \<le> i" "i < n"
  shows "is_finite (offset n i) \<and> - (1 / 2) < fval (offset n i) \<and> fval (offset n i) < 1 / 2 \<and>
         \<bar>fval (offset n i) - ((of_int i + 1 / 2) / of_int n - 1 / 2)\<bar> \<le> 3 / 2 ^ 55"
proof -
  define N :: rat where "N = of_int n"
  define I :: rat where "I = of_int i"
  define t where "t = (I + 1 / 2) / N"
  have N: "1 \<le> N" "N \<le> 2 ^ 52"
  proof -
    have "(of_int 1 :: rat) \<le> of_int n" "(of_int n :: rat) \<le> of_int (2 ^ 52)"
      using n by (simp_all only: of_int_le_iff)
    then show "1 \<le> N" "N \<le> 2 ^ 52" by (simp_all add: N_def)
  qed
  have I: "0 \<le> I" "I + 1 \<le> N"
  proof -
    have "(of_int 0 :: rat) \<le> of_int i" "(of_int (i + 1) :: rat) \<le> of_int n"
      using i by (simp_all only: of_int_le_iff)
    then show "0 \<le> I" "I + 1 \<le> N" by (simp_all add: N_def I_def)
  qed
  have Npos: "0 < N" using N by simp
  have tlo: "1 / 2 ^ 53 \<le> t"
    unfolding t_def using Npos N I by (simp add: pos_le_divide_eq)
  have thi: "t \<le> 1 - 1 / 2 ^ 53"
    unfolding t_def using Npos N I by (simp add: pos_divide_le_eq algebra_simps)
  have tpos: "0 < t" using tlo by (simp add: less_le_trans[of 0 "1 / 2 ^ 53" t])
  have tlt1: "t < 1" using thi by simp
  \<comment> \<open>the operands\<close>
  have fi: "float64_of_int i = Finite False I"
    using float64_of_int_exact[of i] i n by (simp add: I_def)
  have fn: "float64_of_int n = Finite False N"
    using float64_of_int_exact[of n] n by (simp add: N_def)
  have eq: "(of_int (2 * i + 1) :: rat) / 2 ^ 1 = 1 / 2 + I"
    by (simp add: I_def field_simps)
  have "round_to False (of_int (2 * i + 1) / 2 ^ 1) = Finite False (of_int (2 * i + 1) / 2 ^ 1)"
    using i n by (intro round_to_dyadic) simp_all
  then have rs: "round_to False (1 / 2 + I) = Finite False (1 / 2 + I)"
    unfolding eq .
  have sum: "fadd fhalf (float64_of_int i) = Finite False (I + 1 / 2)"
    using I(1) rs by (simp add: fi fhalf_def sval_def Let_def add.commute)
  \<comment> \<open>the quotient\<close>
  define q where "q = rnd t"
  have "rnd (of_int 1 / 2 ^ 53) = of_int 1 / 2 ^ 53"
    by (intro rnd_dyadic) simp_all
  then have "1 / 2 ^ 53 \<le> q"
    unfolding q_def using rnd_mono[of "1 / 2 ^ 53" t] tlo by simp
  then have qlo: "1 / 2 ^ 53 \<le> q" .
  have "rnd (of_int (2 ^ 53 - 1) / 2 ^ 53) = of_int (2 ^ 53 - 1) / 2 ^ 53"
    by (intro rnd_dyadic) simp_all
  moreover have "(of_int (2 ^ 53 - 1) :: rat) / 2 ^ 53 = 1 - 1 / 2 ^ 53" by simp
  ultimately have "rnd (1 - 1 / 2 ^ 53) = 1 - 1 / 2 ^ 53" by simp
  then have qhi: "q \<le> 1 - 1 / 2 ^ 53"
    unfolding q_def using rnd_mono[of t "1 - 1 / 2 ^ 53"] thi tpos by simp
  have qerr: "\<bar>q - t\<bar> \<le> 1 / 2 ^ 54"
    unfolding q_def using rnd_err[of t 0] tpos tlt1 by (simp add: pow2_neg_numeral)
  have "q < pow2 1024" using qhi by (intro pow2_1024_gt) simp
  then have quot: "fdiv (Finite False (I + 1 / 2)) (Finite False N) = Finite False q"
    using Npos by (simp add: round_to_def q_def t_def)
  \<comment> \<open>the difference\<close>
  define v where "v = q - 1 / 2"
  have off: "offset n i = (if v = 0 then Finite False 0 else round_to (v < 0) \<bar>v\<bar>)"
    unfolding offset_def sum fn quot
    by (simp add: fsub_def fhalf_def sval_def Let_def v_def)
  show ?thesis
  proof (cases "v = 0")
    case True
    then have "offset n i = Finite False 0" by (simp add: off)
    moreover have "\<bar>0 - (t - 1 / 2)\<bar> \<le> 3 / 2 ^ 55"
    proof -
      have "q = 1 / 2" using True by (simp add: v_def)
      then have "\<bar>0 - (t - 1 / 2)\<bar> = \<bar>q - t\<bar>" by simp
      also have "\<dots> \<le> 1 / 2 ^ 54" by (rule qerr)
      also have "\<dots> \<le> 3 / 2 ^ 55" by simp
      finally show ?thesis .
    qed
    ultimately show ?thesis
      by (simp add: sval_def t_def I_def N_def)
  next
    case False
    define w where "w = rnd \<bar>v\<bar>"
    have apos: "0 < \<bar>v\<bar>" using False by simp
    have ale: "\<bar>v\<bar> \<le> 1 / 2 - 1 / 2 ^ 53"
    proof -
      define d :: rat where "d = 1 / 2 ^ 53"
      have "d \<le> q" "q \<le> 1 - d" using qlo qhi by (simp_all only: d_def)
      then have "\<bar>q - 1 / 2\<bar> \<le> 1 / 2 - d" unfolding abs_le_iff by linarith
      then show ?thesis by (simp only: d_def v_def)
    qed
    have "rnd (of_int (2 ^ 52 - 1) / 2 ^ 53) = of_int (2 ^ 52 - 1) / 2 ^ 53"
      by (intro rnd_dyadic) simp_all
    moreover have "(of_int (2 ^ 52 - 1) :: rat) / 2 ^ 53 = 1 / 2 - 1 / 2 ^ 53" by simp
    ultimately have "rnd (1 / 2 - 1 / 2 ^ 53) = 1 / 2 - 1 / 2 ^ 53" by simp
    then have whi: "w \<le> 1 / 2 - 1 / 2 ^ 53"
      unfolding w_def using rnd_mono[of "\<bar>v\<bar>" "1 / 2 - 1 / 2 ^ 53"] ale by simp
    have wlo: "0 \<le> w" unfolding w_def by (intro rnd_nonneg) simp
    have werr: "\<bar>w - \<bar>v\<bar>\<bar> \<le> 1 / 2 ^ 55"
      unfolding w_def using rnd_err[of "\<bar>v\<bar>" "- 1"] apos ale
      by (simp add: pow2_neg_numeral)
    have "w < pow2 1024" using whi by (intro pow2_1024_gt) simp
    then have o: "offset n i = Finite (v < 0) w"
      using False by (simp add: off round_to_def w_def)
    have "\<bar>sval (v < 0) w - v\<bar> = \<bar>w - \<bar>v\<bar>\<bar>"
      by (cases "v < 0") (simp_all add: sval_def abs_if)
    with werr have e1: "\<bar>sval (v < 0) w - v\<bar> \<le> 1 / 2 ^ 55" by simp
    have "sval (v < 0) w - (t - 1 / 2) = (sval (v < 0) w - v) + (q - t)"
      by (simp add: v_def)
    then have "\<bar>sval (v < 0) w - (t - 1 / 2)\<bar> \<le> \<bar>sval (v < 0) w - v\<bar> + \<bar>q - t\<bar>"
      by (simp add: abs_triangle_ineq)
    also have "\<dots> \<le> 1 / 2 ^ 55 + 1 / 2 ^ 54" using e1 qerr by (rule add_mono)
    also have "\<dots> = 3 / 2 ^ 55" by simp
    finally have err: "\<bar>sval (v < 0) w - (t - 1 / 2)\<bar> \<le> 3 / 2 ^ 55" .
    have "- (1 / 2) < sval (v < 0) w" "sval (v < 0) w < 1 / 2"
      using wlo whi by (simp_all add: sval_def)
    with err show ?thesis
      by (simp add: o t_def I_def N_def)
  qed
qed


lemma nth_offsets:
  assumes "0 \<le> i" "i < n"
  shows "map (offset n) [0..n - 1] ! nat i = offset n i"
proof -
  have "nat i < length [0..n - 1]" using assms by simp
  moreover have "[0..n - 1] ! nat i = 0 + int (nat i)"
    using assms by (intro nth_upto) simp
  ultimately show ?thesis using assms by simp
qed

text \<open>\<open>Init\<close> does not return for a level above \<open>2 ^ 45\<close>: \<open>make\<close> panics.\<close>

lemma Init_too_long:
  assumes "2 ^ 45 < AntiAlias p"
  shows "Init pf p = Inl (Panic ''makeslice: len out of range'')"
  using assms by (simp add: Init_def makeslice_def maxAlloc_def)

text \<open>
  C7, as amended.  For parameters that \<open>Init\<close> has returned without an error, on any
  platform, the antialiasing level is at least 1 and at most \<open>2 ^ 45\<close> (\<open>make\<close> panics for a
  longer slice of \<open>float64\<close>), and the sequence of subpixel offsets has exactly
  \<open>AntiAlias\<close> elements; the element of index \<open>i\<close> is the \<open>float64\<close> result of
  \<open>(0.5 + i) / AntiAlias - 0.5\<close>, is finite, lies strictly between \<open>- 0.5\<close> and \<open>0.5\<close> and
  is within \<open>3 / 2 ^ 55\<close> of the exact value \<open>(i + 0.5) / AntiAlias - 0.5\<close>; consecutive
  offsets differ by \<open>1 / AntiAlias\<close> up to \<open>3 / 2 ^ 54\<close>.
\<close>

theorem Init_offsets_spacing:
  assumes "Init pf p0 = Inr (p, None)"
  shows "1 \<le> AntiAlias p \<and> AntiAlias p \<le> 2 ^ 45 \<and>
         int (length (subpixOffsets p)) = AntiAlias p \<and>
         (\<forall>i. 0 \<le> i \<and> i < AntiAlias p \<longrightarrow>
            subpixOffsets p ! nat i = offset (AntiAlias p) i \<and>
            is_finite (subpixOffsets p ! nat i) \<and>
            - (1 / 2) < fval (subpixOffsets p ! nat i) \<and>
            fval (subpixOffsets p ! nat i) < 1 / 2 \<and>
            \<bar>fval (subpixOffsets p ! nat i) -
               ((of_int i + 1 / 2) / of_int (AntiAlias p) - 1 / 2)\<bar> \<le> 3 / 2 ^ 55) \<and>
         (\<forall>i. 0 \<le> i \<and> i + 1 < AntiAlias p \<longrightarrow>
            \<bar>fval (subpixOffsets p ! nat (i + 1)) - fval (subpixOffsets p ! nat i) -
               1 / of_int (AntiAlias p)\<bar> \<le> 3 / 2 ^ 54)"
proof (intro conjI allI impI)
  note init = Init_offsets[OF assms(1)]
  define n where "n = AntiAlias p"
  show "1 \<le> AntiAlias p" "AntiAlias p \<le> 2 ^ 45" using init by simp_all
  have "n \<le> 2 ^ 45" using init by (simp add: n_def)
  also have "(2::int) ^ 45 \<le> 2 ^ 52" by simp
  finally have n: "1 \<le> n" "n \<le> 2 ^ 52" using init by (simp_all add: n_def)
  have so: "subpixOffsets p = map (offset n) [0..n - 1]" using init by (simp add: n_def)
  show "int (length (subpixOffsets p)) = AntiAlias p"
    using n by (simp add: so flip: n_def)
  have nth: "subpixOffsets p ! nat i = offset n i" if "0 \<le> i \<and> i < n" for i
    unfolding so using that by (intro nth_offsets) simp_all
  fix i
  {
    assume i: "0 \<le> i \<and> i < AntiAlias p"
    then have i': "0 \<le> i \<and> i < n" by (simp add: n_def)
    note v = offset_value[OF n, of i] nth[OF i']
    show "subpixOffsets p ! nat i = offset (AntiAlias p) i"
      using v i' by (simp add: n_def)
    show "is_finite (subpixOffsets p ! nat i)" using v i' by simp
    show "- (1 / 2) < fval (subpixOffsets p ! nat i)" using v i' by simp
    show "fval (subpixOffsets p ! nat i) < 1 / 2" using v i' by simp
    show "\<bar>fval (subpixOffsets p ! nat i) -
        ((of_int i + 1 / 2) / of_int (AntiAlias p) - 1 / 2)\<bar> \<le> 3 / 2 ^ 55"
      using v i' by (simp add: n_def)
  }
  {
    assume "0 \<le> i \<and> i + 1 < AntiAlias p"
    then have i0: "0 \<le> i \<and> i < n" and i1: "0 \<le> i + 1 \<and> i + 1 < n" by (simp_all add: n_def)
    define N :: rat where "N = of_int n"
    define a where "a = fval (offset n i) - ((of_int i + 1 / 2) / N - 1 / 2)"
    define b where "b = fval (offset n (i + 1)) - ((of_int (i + 1) + 1 / 2) / N - 1 / 2)"
    have a: "\<bar>a\<bar> \<le> 3 / 2 ^ 55"
      unfolding a_def N_def using offset_value[OF n, of i] i0 by simp
    have b: "\<bar>b\<bar> \<le> 3 / 2 ^ 55"
      unfolding b_def N_def using offset_value[OF n, of "i + 1"] i1 by simp
    have "N \<noteq> 0" using n by (simp add: N_def)
    then have "((of_int (i + 1) + 1 / 2) / N - 1 / 2) - ((of_int i + 1 / 2) / N - 1 / 2) = 1 / N"
      by (simp add: field_simps)
    then have "fval (offset n (i + 1)) - fval (offset n i) - 1 / N = b - a"
      by (simp add: a_def b_def)
    also have "\<bar>b - a\<bar> \<le> \<bar>b\<bar> + \<bar>a\<bar>" by (rule abs_triangle_ineq4)
    also have "\<dots> \<le> 3 / 2 ^ 55 + 3 / 2 ^ 55" using b a by (rule add_mono)
    also have "\<dots> = 3 / 2 ^ 54" by simp
    finally show "\<bar>fval (subpixOffsets p ! nat (i + 1)) - fval (subpixOffsets p ! nat i) -
        1 / of_int (AntiAlias p)\<bar> \<le> 3 / 2 ^ 54"
      unfolding nth[OF i0] nth[OF i1] N_def n_def .
  }
qed

lemma offset_2: "offset 2 0 = Finite True (1 / 4)" "offset 2 1 = Finite False (1 / 4)"
  using round_to_dyadic[of 1 1 False] round_to_dyadic[of 1 2 False] round_to_dyadic[of 1 2 True]
    round_to_dyadic[of 3 1 False] round_to_dyadic[of 3 2 False]
  by (simp_all add: offset_def feval float64_of_int_2 ftwo_def)

theorem Init_offsets_spacing_witness:
  "Init example_platform example = Inr (example_ready, None) \<and>
   AntiAlias example_ready = 2 \<and> length (subpixOffsets example_ready) = 2 \<and>
   subpixOffsets example_ready ! 0 = Finite True (1 / 4) \<and>
   subpixOffsets example_ready ! 1 = Finite False (1 / 4) \<and>
   (0::int) + 1 < 2 \<and>
   \<bar>fval (subpixOffsets example_ready ! nat (0 + 1)) - fval (subpixOffsets example_ready ! nat 0) -
      1 / of_int (AntiAlias example_ready)\<bar> \<le> 3 / 2 ^ 54"
proof -
  have "Init (roomy example_platform) example = Inr (example_ready, None)"
    unfolding example_ready_def by (rule Init_ok) (simp_all add: example_simps)
  then have i1: "Init example_platform example = Inr (example_ready, None)" by simp
  have a1: "AntiAlias example_ready = 2"
    by (simp add: example_ready_def Init_fields example_simps)
  note t = Init_offsets_spacing[OF i1, THEN conjunct2, THEN conjunct2]
  from t have l: "length (subpixOffsets example_ready) = 2" by (simp add: a1)
  from t[THEN conjunct2, THEN conjunct1, rule_format, of 0]
  have o0: "subpixOffsets example_ready ! 0 = Finite True (1 / 4)"
    by (simp add: a1 offset_2)
  from t[THEN conjunct2, THEN conjunct1, rule_format, of 1]
  have o1: "subpixOffsets example_ready ! 1 = Finite False (1 / 4)"
    by (simp add: a1 offset_2)
  from t[THEN conjunct2, THEN conjunct2, rule_format, of 0]
  have sp: "\<bar>fval (subpixOffsets example_ready ! nat (0 + 1)) -
      fval (subpixOffsets example_ready ! nat 0) - 1 / of_int (AntiAlias example_ready)\<bar> \<le> 3 / 2 ^ 54"
    by (simp add: a1)
  from i1 a1 l o0 o1 sp show ?thesis by simp
qed


lemma rnd_tenths:
  "rnd (3 / 10) = 5404319552844595 / 18014398509481984"
  "rnd (7 / 10) = 3152519739159347 / 4503599627370496"
  by code_simp+

lemma offset_5:
  "offset 5 1 = Finite True (3602879701896397 / 18014398509481984)"
  "offset 5 2 = fzero"
  "offset 5 3 = Finite False (900719925474099 / 4503599627370496)"
proof -
  have f5: "float64_of_int 5 = Finite False 5" "float64_of_int 3 = Finite False 3"
    using float64_of_int_exact[of 5] float64_of_int_exact[of 3] by simp_all
  have big: "(5404319552844595 / 18014398509481984 :: rat) < pow2 1024"
    "(3152519739159347 / 4503599627370496 :: rat) < pow2 1024"
    by (rule pow2_1024_gt, simp)+
  have q: "round_to False (3 / 10) = Finite False (5404319552844595 / 18014398509481984)"
    "round_to False (7 / 10) = Finite False (3152519739159347 / 4503599627370496)"
    using big by (simp_all add: round_to_def rnd_tenths not_le)
  have e: "round_to True (3602879701896397 / 18014398509481984) =
      Finite True (3602879701896397 / 18014398509481984)"
    "round_to False (900719925474099 / 4503599627370496) =
      Finite False (900719925474099 / 4503599627370496)"
    using round_to_dyadic[of 3602879701896397 54 True] round_to_dyadic[of 900719925474099 52 False]
    by simp_all
  show "offset 5 1 = Finite True (3602879701896397 / 18014398509481984)"
    using round_to_dyadic[of 3 1 False] q e by (simp add: offset_def feval f5)
  show "offset 5 2 = fzero"
    using round_to_dyadic[of 5 1 False] round_to_dyadic[of 1 1 False]
    by (simp add: offset_def feval f5 float64_of_int_2 ftwo_def)
  show "offset 5 3 = Finite False (900719925474099 / 4503599627370496)"
    using round_to_dyadic[of 7 1 False] q e by (simp add: offset_def feval f5)
qed

text \<open>
  C7 as it is stated fails: the offsets are \<open>float64\<close> values and their spacing is not
  constant.  For \<open>AntiAlias = 5\<close> the offsets of index 1, 2 and 3 are
  \<open>- 0.2 - 2 ^ - 54\<close> (rounded), \<open>0\<close> and \<open>0.19999999999999996\<close>: the two gaps differ
  from each other, and neither is \<open>1/5\<close>.
\<close>

theorem Init_offsets_spacing_counterexample:
  "Init example_platform (example\<lparr>AntiAlias := 5\<rparr>) =
     Inr (ready (example\<lparr>AntiAlias := 5\<rparr>), None) \<and>
   subpixOffsets (ready (example\<lparr>AntiAlias := 5\<rparr>)) ! 1 =
     Finite True (3602879701896397 / 18014398509481984) \<and>
   subpixOffsets (ready (example\<lparr>AntiAlias := 5\<rparr>)) ! 2 = fzero \<and>
   subpixOffsets (ready (example\<lparr>AntiAlias := 5\<rparr>)) ! 3 =
     Finite False (900719925474099 / 4503599627370496) \<and>
   fval (subpixOffsets (ready (example\<lparr>AntiAlias := 5\<rparr>)) ! 3) -
     fval (subpixOffsets (ready (example\<lparr>AntiAlias := 5\<rparr>)) ! 2) \<noteq>
   fval (subpixOffsets (ready (example\<lparr>AntiAlias := 5\<rparr>)) ! 2) -
     fval (subpixOffsets (ready (example\<lparr>AntiAlias := 5\<rparr>)) ! 1) \<and>
   fval (subpixOffsets (ready (example\<lparr>AntiAlias := 5\<rparr>)) ! 3) -
     fval (subpixOffsets (ready (example\<lparr>AntiAlias := 5\<rparr>)) ! 2) \<noteq> 1 / 5 \<and>
   fval (subpixOffsets (ready (example\<lparr>AntiAlias := 5\<rparr>)) ! 2) -
     fval (subpixOffsets (ready (example\<lparr>AntiAlias := 5\<rparr>)) ! 1) \<noteq> 1 / 5"
proof -
  define q where "q = ready (example\<lparr>AntiAlias := 5\<rparr>)"
  have "Init (roomy example_platform) (example\<lparr>AntiAlias := 5\<rparr>) = Inr (q, None)"
    unfolding q_def by (rule Init_ok) (simp_all add: example_simps)
  then have i: "Init example_platform (example\<lparr>AntiAlias := 5\<rparr>) = Inr (q, None)" by simp
  have a: "AntiAlias q = 5" by (simp add: q_def Init_fields example_simps)
  have so: "subpixOffsets q = map (offset 5) [0..5 - 1]"
    using Init_offsets[OF i] by (simp add: a)
  have n: "subpixOffsets q ! 1 = offset 5 1" "subpixOffsets q ! 2 = offset 5 2"
    "subpixOffsets q ! 3 = offset 5 3"
    unfolding so using nth_offsets[of 1 5] nth_offsets[of 2 5] nth_offsets[of 3 5] by simp_all
  have n': "subpixOffsets q ! Suc 0 = offset 5 1" using n(1) by simp
  show ?thesis
    unfolding q_def[symmetric] using i by (simp add: n n' offset_5 sval_def fzero_def)
qed

end
